theory Spec2Isabelle
  imports Main "HOL-Library.Word" "HOL-Library.AList"
begin

unbundle bit_operations_syntax

section \<open>Failures\<close>

text \<open>
  \<open>Exception::Code\<close> of \<open>common/Exception.h\<close>. A thrown \<open>Exception\<close> is the value
  \<open>Thrown code\<close>; the message string is not modelled.

  A failed \<open>assert\<close> aborts the process (\<open>AssertFail\<close>). The remaining constructors
  stand for steps whose behaviour C++ leaves undefined: indexing \<open>blocks_\<close> out of
  range, reading a byte of a block that was never written (\<open>new char[kBlockSize]\<close>
  leaves the block indeterminate), using a \<open>RAMFile\<close> after its \<open>delete\<close>, going
  through a null buffer pointer, and \<open>delete\<close> of the static \<open>dummy_file\<close>.
\<close>

datatype Code =
    FileAlreadyExistsException
  | FileNotFoundException
  | IOErrorException
  | IndexCorruptionException

datatype failure =
    Thrown Code
  | AssertFail
  | OutOfRange
  | Indeterminate
  | Dangling
  | NullBuffer
  | InvalidDelete

section \<open>RAMFile\<close>

type_synonym byte = "8 word"

text \<open>
  One block is a \<open>char[kBlockSize]\<close>. It is modelled as a map from the offset in the
  block to the byte stored there; an offset that was never written has no value.
\<close>

type_synonym block = "nat \<Rightarrow> byte option"

definition kBlockSize :: nat where
  "kBlockSize = 4096"

text \<open>
  \<open>struct RAMFile\<close> of \<open>storage/RAMDirectory.h\<close>: \<open>blocks_\<close>, \<open>length\<close>, \<open>refs_\<close> and
  \<open>name\<close>. \<open>lastModified\<close> is never read or written by the code and \<open>parent\<close> is
  the one directory; both are left out. Sizes and stream positions are \<open>nat\<close>:
  a 64-bit counter of bytes held in memory does not wrap.
\<close>

record RAMFile =
  blocks :: "block list"
  file_length :: nat
  refs :: int
  file_name :: string

definition new_RAMFile :: "string \<Rightarrow> RAMFile" where
  "new_RAMFile fname = \<lparr>blocks = [], file_length = 0, refs = 0, file_name = fname\<rparr>"

definition alloc :: "RAMFile \<Rightarrow> RAMFile" where
  "alloc f = f\<lparr>blocks := blocks f @ [\<lambda>_. None]\<rparr>"

section \<open>IndexIOBase and IndexOutput\<close>

text \<open>
  The three buffer pointers of \<open>IndexIOBase\<close> always point into one block of the
  stream's file. \<open>bufBlock\<close> is the index of that block in \<open>blocks_\<close> (\<open>None\<close> while
  the pointers are null) and \<open>bufStart\<close>, \<open>bufCur\<close>, \<open>bufEnd\<close> are offsets in it.
  Differences of pointers are differences of offsets. Every operation keeps
  \<open>bufStart \<le> bufCur \<le> bufEnd\<close>, so the differences the code takes are not negative.
\<close>

record IndexIOBase =
  bufBlock :: "nat option"
  bufStart :: nat
  bufCur :: nat
  bufEnd :: nat
  pos :: nat

text \<open>
  \<open>RAMFileIndexOutput\<close>. Until the writer is closed nothing else holds the pointer
  to its \<open>RAMFile\<close>, so the record carries the object itself; \<open>commit\<close> moves it into
  the directory's store.
\<close>

record RAMFileIndexOutput = IndexIOBase +
  wfile :: RAMFile
  wcurrent_block :: nat

definition new_RAMFileIndexOutput :: "string \<Rightarrow> RAMFileIndexOutput" where
  "new_RAMFileIndexOutput fname =
     \<lparr>bufBlock = None, bufStart = 0, bufCur = 0, bufEnd = 0, pos = 0,
      wfile = new_RAMFile fname, wcurrent_block = 0\<rparr>"

definition available :: "RAMFileIndexOutput \<Rightarrow> nat" where
  "available w = bufEnd w - bufCur w"

definition getNumWritableBytes :: "RAMFileIndexOutput \<Rightarrow> nat" where
  "getNumWritableBytes w = bufCur w - bufStart w"

text \<open>\<open>RAMFileIndexOutput::initInternalBuffer\<close>: \<open>alloc\<close>, \<open>set(blocks_[0], kBlockSize)\<close>,
  \<open>bufCur = bufStart\<close>.\<close>

definition out_initInternalBuffer :: "RAMFileIndexOutput \<Rightarrow> RAMFileIndexOutput" where
  "out_initInternalBuffer w =
     w\<lparr>wfile := alloc (wfile w), bufBlock := Some 0, bufStart := 0,
       bufEnd := kBlockSize, bufCur := 0\<rparr>"

text \<open>
  \<open>RAMFileIndexOutput::writeImpl\<close>. \<open>current_block == blocks_.size() - 1\<close> compares
  \<open>size_t\<close> values, so on an empty vector the right side is the largest \<open>size_t\<close>;
  the test is written \<open>current_block + 1 = size\<close>. In the full-block branch \<open>set\<close>
  moves \<open>bufStart\<close> and \<open>bufEnd\<close> to the next block; \<open>bufCur\<close> follows in
  \<open>flushNonEmpty\<close>.
\<close>

definition writeImpl :: "RAMFileIndexOutput \<Rightarrow> failure + RAMFileIndexOutput" where
  "writeImpl w =
     (let f = (if file_length (wfile w) < pos w then (wfile w)\<lparr>file_length := pos w\<rparr>
               else wfile w)
      in if bufCur w = bufEnd w then
           (let f' = (if wcurrent_block w + 1 = length (blocks f) then alloc f else f);
                cb = wcurrent_block w + 1
            in if cb < length (blocks f')
               then Inr (w\<lparr>wfile := f', wcurrent_block := cb, bufBlock := Some cb,
                           bufStart := 0, bufEnd := kBlockSize\<rparr>)
               else Inl OutOfRange)
         else Inr (w\<lparr>wfile := f, bufStart := bufCur w\<rparr>))"

definition flushNonEmpty :: "RAMFileIndexOutput \<Rightarrow> failure + RAMFileIndexOutput" where
  "flushNonEmpty w =
     (if getNumWritableBytes w = 0 then Inl AssertFail
      else (case writeImpl w of
              Inl e \<Rightarrow> Inl e
            | Inr w' \<Rightarrow> Inr (w'\<lparr>bufCur := bufStart w'\<rparr>)))"

definition flush :: "RAMFileIndexOutput \<Rightarrow> failure + RAMFileIndexOutput" where
  "flush w = (if bufCur w \<noteq> bufStart w then flushNonEmpty w else Inr w)"

text \<open>Storing \<open>cs\<close> from offset \<open>off\<close> of a block on.\<close>

primrec store_bytes :: "block \<Rightarrow> nat \<Rightarrow> byte list \<Rightarrow> block" where
  "store_bytes b off [] = b"
| "store_bytes b off (c # cs) = store_bytes (b(off \<mapsto> c)) (Suc off) cs"

text \<open>
  \<open>IndexOutput::copyToBuffer\<close>. The \<open>switch\<close> on sizes up to 4 and \<open>memcpy\<close> store
  the same bytes at the same offsets, so all sizes go through \<open>store_bytes\<close>. The
  buffer is the block itself: the bytes land in \<open>blocks_[bufBlock]\<close> at \<open>bufCur\<close>.
\<close>

definition copyToBuffer :: "RAMFileIndexOutput \<Rightarrow> byte list \<Rightarrow> failure + RAMFileIndexOutput" where
  "copyToBuffer w ptr =
     (if available w < length ptr then Inl AssertFail
      else if ptr = [] then Inr w
      else case bufBlock w of
             None \<Rightarrow> Inl NullBuffer
           | Some b \<Rightarrow>
               if b < length (blocks (wfile w))
               then Inr (w\<lparr>wfile := (wfile w)\<lparr>blocks :=
                             (blocks (wfile w))[b := store_bytes (blocks (wfile w) ! b) (bufCur w) ptr]\<rparr>,
                           bufCur := bufCur w + length ptr\<rparr>)
               else Inl OutOfRange)"

lemma kBlockSize_pos: "0 < kBlockSize"
  by (simp add: kBlockSize_def)

text \<open>
  \<open>IndexOutput::write\<close>. When the bytes do not fit, the buffer is created on first use,
  otherwise filled up, flushed and the rest written by the recursive call.
\<close>

function write_bytes :: "RAMFileIndexOutput \<Rightarrow> byte list \<Rightarrow> failure + RAMFileIndexOutput" where
  "write_bytes w ptr =
     (if available w < length ptr then
        (if bufBlock w = None then write_bytes (out_initInternalBuffer w) ptr
         else
           (let avail = available w in
            case copyToBuffer w (take avail ptr) of
              Inl e \<Rightarrow> Inl e
            | Inr w1 \<Rightarrow>
                (case flushNonEmpty (w1\<lparr>pos := pos w1 + avail\<rparr>) of
                   Inl e \<Rightarrow> Inl e
                 | Inr w2 \<Rightarrow> write_bytes w2 (drop avail ptr))))
      else case copyToBuffer w ptr of
             Inl e \<Rightarrow> Inl e
           | Inr w1 \<Rightarrow> Inr (w1\<lparr>pos := pos w1 + length ptr\<rparr>))"
  by pat_completeness auto

text \<open>The recursion ends: each call has fewer bytes left, or has just created or
  flushed the buffer.\<close>

definition write_measure :: "RAMFileIndexOutput \<times> byte list \<Rightarrow> nat" where
  "write_measure = (\<lambda>(w, ptr). 4 * length ptr + (if bufBlock w = None then 1 else 0)
      + (if available w = 0 then (if bufCur w = bufStart w then 1 else 2) else 0))"

lemma copyToBuffer_Inr:
  assumes "copyToBuffer w p = Inr w1"
  shows "bufCur w1 = bufCur w + length p" "bufEnd w1 = bufEnd w" "bufStart w1 = bufStart w"
    "bufBlock w1 = bufBlock w" "pos w1 = pos w" "length p \<le> available w"
    "wcurrent_block w1 = wcurrent_block w"
  using assms
  by (auto simp add: copyToBuffer_def split: if_splits option.splits)

lemma writeImpl_Inr:
  assumes "writeImpl w = Inr w2"
  shows "bufCur w = bufEnd w \<Longrightarrow> bufEnd w2 = kBlockSize \<and> bufStart w2 = 0 \<and> bufBlock w2 \<noteq> None"
    "bufCur w \<noteq> bufEnd w \<Longrightarrow> bufStart w2 = bufCur w \<and> bufEnd w2 = bufEnd w \<and> bufBlock w2 = bufBlock w"
    "bufCur w2 = bufCur w" "pos w2 = pos w"
  using assms
  by (auto simp add: writeImpl_def Let_def split: if_splits)

lemma flushNonEmpty_Inr:
  assumes "flushNonEmpty w = Inr w2"
  shows "bufStart w < bufCur w"
    "bufCur w = bufEnd w \<Longrightarrow> bufCur w2 = 0 \<and> bufEnd w2 = kBlockSize \<and> bufStart w2 = 0 \<and> bufBlock w2 \<noteq> None"
    "bufCur w \<noteq> bufEnd w \<Longrightarrow> bufCur w2 = bufCur w \<and> bufStart w2 = bufCur w \<and> bufEnd w2 = bufEnd w \<and> bufBlock w2 = bufBlock w"
    "pos w2 = pos w"
proof -
  from assms obtain w' where w': "writeImpl w = Inr w'" "w2 = w'\<lparr>bufCur := bufStart w'\<rparr>"
    and ne: "getNumWritableBytes w \<noteq> 0"
    by (auto simp add: flushNonEmpty_def split: if_splits sum.splits)
  from ne show "bufStart w < bufCur w" by (simp add: getNumWritableBytes_def)
  show "bufCur w = bufEnd w \<Longrightarrow> bufCur w2 = 0 \<and> bufEnd w2 = kBlockSize \<and> bufStart w2 = 0 \<and> bufBlock w2 \<noteq> None"
    using writeImpl_Inr(1)[OF w'(1)] w'(2) by simp
  show "bufCur w \<noteq> bufEnd w \<Longrightarrow> bufCur w2 = bufCur w \<and> bufStart w2 = bufCur w \<and> bufEnd w2 = bufEnd w \<and> bufBlock w2 = bufBlock w"
    using writeImpl_Inr(2)[OF w'(1)] w'(2) by simp
  show "pos w2 = pos w" using writeImpl_Inr(4)[OF w'(1)] w'(2) by simp
qed

termination write_bytes
proof (relation "measure write_measure", goal_cases)
  case 1 show ?case by simp
next
  case (2 w ptr)
  then show ?case
    by (simp add: write_measure_def out_initInternalBuffer_def available_def kBlockSize_def)
next
  case (3 w ptr avail w1 w2)
  let ?w1 = "w1\<lparr>pos := pos w1 + avail\<rparr>"
  have av: "avail = bufEnd w - bufCur w" using 3 by (simp add: available_def)
  have lt: "avail < length ptr" using 3 by simp
  have c: "bufCur ?w1 = bufCur w + avail" "bufEnd ?w1 = bufEnd w" "bufStart ?w1 = bufStart w"
    "bufBlock ?w1 = bufBlock w"
    using copyToBuffer_Inr[OF 3(4)] lt by simp_all
  have nn: "bufBlock w \<noteq> None" using 3 by simp
  note f = flushNonEmpty_Inr[OF 3(5)]
  show ?case
  proof (cases "avail = 0")
    case False
    then have "4 * length (drop avail ptr) + 4 \<le> 4 * length ptr" using lt by simp
    moreover have "available w \<noteq> 0" using False 3 by simp
    ultimately show ?thesis using nn
      by (simp add: write_measure_def)
  next
    case True
    show ?thesis
    proof (cases "bufCur w = bufEnd w")
      case True
      with f(2) c \<open>avail = 0\<close> have "available w2 = kBlockSize" "bufBlock w2 \<noteq> None"
        by (simp_all add: available_def)
      then show ?thesis using \<open>avail = 0\<close> nn kBlockSize_pos f(1) c 3(3)
        by (auto simp add: write_measure_def)
    next
      case False
      with f(3) c \<open>avail = 0\<close> have "bufCur w2 = bufStart w2" "bufBlock w2 = bufBlock w" "available w2 = available w"
        by (simp_all add: available_def)
      then show ?thesis using \<open>avail = 0\<close> nn f(1) c 3(3)
        by (auto simp add: write_measure_def)
    qed
  qed
qed

declare write_bytes.simps [simp del]

subsection \<open>The encoders\<close>

text \<open>The local array \<open>buf\<close> of each encoder, as the list of bytes it passes to \<open>write\<close>.
  A \<open>static_cast<char>\<close> or a store into a \<open>uint8_t\<close> keeps the low 8 bits (\<open>ucast\<close>).
  The branches of \<open>writeVarint32\<close> are those of the source, byte for byte: the one for
  \<open>num < (1 << 28)\<close> stores three bytes.\<close>

definition writeInt32_buf :: "32 word \<Rightarrow> byte list" where
  "writeInt32_buf num =
     [ucast num, ucast (drop_bit 8 num), ucast (drop_bit 16 num), ucast (drop_bit 24 num)]"

definition writeInt64_buf :: "64 word \<Rightarrow> byte list" where
  "writeInt64_buf num =
     [ucast num, ucast (drop_bit 8 num), ucast (drop_bit 16 num), ucast (drop_bit 24 num),
      ucast (drop_bit 32 num), ucast (drop_bit 40 num), ucast (drop_bit 48 num),
      ucast (drop_bit 56 num)]"

definition writeVarint32_buf :: "32 word \<Rightarrow> byte list" where
  "writeVarint32_buf num =
     (if num < 2 ^ 7 then [ucast num]
      else if num < 2 ^ 14 then [ucast (num OR 128), ucast (drop_bit 7 num)]
      else if num < 2 ^ 21 then
        [ucast (num OR 128), ucast (drop_bit 7 num OR 128), ucast (drop_bit 14 num)]
      else if num < 2 ^ 28 then
        [ucast (drop_bit 7 num OR 128), ucast (drop_bit 14 num OR 128), ucast (drop_bit 21 num)]
      else
        [ucast (num OR 128), ucast (drop_bit 7 num OR 128), ucast (drop_bit 14 num OR 128),
         ucast (drop_bit 21 num OR 128), ucast (drop_bit 28 num)])"

lemma unat_drop_bit_7_less: "(128 :: 64 word) \<le> num \<Longrightarrow> unat (drop_bit 7 num) < unat num"
proof -
  assume "(128 :: 64 word) \<le> num"
  then have "128 \<le> unat num" by (simp add: word_le_nat_alt)
  moreover have "unat (drop_bit 7 num) = unat num div 2 ^ 7" by (simp add: drop_bit_eq_div unat_div)
  ultimately show ?thesis by simp
qed

function writeVarint64_buf :: "64 word \<Rightarrow> byte list" where
  "writeVarint64_buf num =
     (if 128 \<le> num then ucast (num OR 128) # writeVarint64_buf (drop_bit 7 num)
      else [ucast num])"
  by pat_completeness auto
termination
  by (relation "measure unat") (simp_all add: unat_drop_bit_7_less)

declare writeVarint64_buf.simps [simp del]

definition writeInt32 :: "RAMFileIndexOutput \<Rightarrow> 32 word \<Rightarrow> failure + RAMFileIndexOutput" where
  "writeInt32 w num = write_bytes w (writeInt32_buf num)"

definition writeInt64 :: "RAMFileIndexOutput \<Rightarrow> 64 word \<Rightarrow> failure + RAMFileIndexOutput" where
  "writeInt64 w num = write_bytes w (writeInt64_buf num)"

definition writeVarint32 :: "RAMFileIndexOutput \<Rightarrow> 32 word \<Rightarrow> failure + RAMFileIndexOutput" where
  "writeVarint32 w num = write_bytes w (writeVarint32_buf num)"

definition writeVarint64 :: "RAMFileIndexOutput \<Rightarrow> 64 word \<Rightarrow> failure + RAMFileIndexOutput" where
  "writeVarint64 w num = write_bytes w (writeVarint64_buf num)"

text \<open>\<open>writeString\<close>: the size is cast to \<open>uint32_t\<close>, then the raw bytes follow.\<close>

definition writeString :: "RAMFileIndexOutput \<Rightarrow> byte list \<Rightarrow> failure + RAMFileIndexOutput" where
  "writeString w str =
     (case writeVarint32 w (of_nat (length str)) of
        Inl e \<Rightarrow> Inl e
      | Inr w' \<Rightarrow> write_bytes w' str)"

section \<open>IndexInput and RAMFileIndexInput\<close>

record IndexInput = IndexIOBase +
  sentinel :: nat

text \<open>\<open>rfile\<close> is the pointer to the file: its address in the directory's store.\<close>

record RAMFileIndexInput = IndexInput +
  rfile :: nat
  rcurrent_block :: nat
  last_block :: nat
  last_block_bytes :: nat

text \<open>The constructor: \<open>assert(file->length)\<close>, then \<open>last_block\<close> and
  \<open>last_block_bytes\<close> from the length.\<close>

definition new_RAMFileIndexInput :: "nat \<Rightarrow> RAMFile \<Rightarrow> failure + RAMFileIndexInput" where
  "new_RAMFileIndexInput a f =
     (if file_length f = 0 then Inl AssertFail
      else Inr \<lparr>bufBlock = None, bufStart = 0, bufCur = 0, bufEnd = 0, pos = 0, sentinel = 0,
                rfile = a, rcurrent_block = 0,
                last_block = (file_length f - 1) div kBlockSize + 1,
                last_block_bytes = (file_length f - 1) mod kBlockSize + 1\<rparr>)"

definition getNumReadableBytes :: "RAMFileIndexInput \<Rightarrow> nat" where
  "getNumReadableBytes r = sentinel r - bufCur r"

definition hasPendingData :: "RAMFileIndexInput \<Rightarrow> bool" where
  "hasPendingData r = (0 < getNumReadableBytes r)"

text \<open>The operations of a reader go through \<open>file\<close>; they take the \<open>RAMFile\<close> the
  pointer refers to as their first argument.\<close>

definition in_initInternalBuffer :: "RAMFile \<Rightarrow> RAMFileIndexInput \<Rightarrow> failure + RAMFileIndexInput" where
  "in_initInternalBuffer f r =
     (if 0 < length (blocks f)
      then Inr (r\<lparr>bufBlock := Some 0, bufStart := 0, bufEnd := kBlockSize, bufCur := 0,
                  sentinel := (if last_block r = 0 then last_block_bytes r else kBlockSize)\<rparr>)
      else Inl OutOfRange)"

definition fillImpl :: "RAMFile \<Rightarrow> RAMFileIndexInput \<Rightarrow> failure + (bool \<times> RAMFileIndexInput)" where
  "fillImpl f r =
     (if hasPendingData r then Inl AssertFail
      else if bufBlock r = None then
        (case in_initInternalBuffer f r of Inl e \<Rightarrow> Inl e | Inr r' \<Rightarrow> Inr (True, r'))
      else if rcurrent_block r = last_block r then Inr (False, r)
      else
        (let cb = rcurrent_block r + 1
         in if cb < length (blocks f)
            then Inr (True, r\<lparr>rcurrent_block := cb, bufBlock := Some cb, bufStart := 0,
                               bufEnd := kBlockSize, bufCur := 0,
                               sentinel := (if cb = last_block r then last_block_bytes r
                                            else kBlockSize)\<rparr>)
            else Inl OutOfRange))"

text \<open>\<open>eof()\<close> is \<open>!hasPendingData() && !fillImpl()\<close>.\<close>

definition eof :: "RAMFile \<Rightarrow> RAMFileIndexInput \<Rightarrow> failure + (bool \<times> RAMFileIndexInput)" where
  "eof f r =
     (if hasPendingData r then Inr (False, r)
      else case fillImpl f r of
             Inl e \<Rightarrow> Inl e
           | Inr (filled, r') \<Rightarrow> Inr (\<not> filled, r'))"

text \<open>Reading the byte a buffer pointer refers to.\<close>

definition peek :: "RAMFile \<Rightarrow> nat option \<Rightarrow> nat \<Rightarrow> failure + byte" where
  "peek f bb off =
     (case bb of
        None \<Rightarrow> Inl NullBuffer
      | Some b \<Rightarrow>
          if b < length (blocks f)
          then (case (blocks f ! b) off of None \<Rightarrow> Inl Indeterminate | Some c \<Rightarrow> Inr c)
          else Inl OutOfRange)"

definition readByte :: "RAMFile \<Rightarrow> RAMFileIndexInput \<Rightarrow> failure + (byte \<times> RAMFileIndexInput)" where
  "readByte f r =
     (case eof f r of
        Inl e \<Rightarrow> Inl e
      | Inr (at_end, r') \<Rightarrow>
          (if at_end then Inl (Thrown IndexCorruptionException)
           else (case peek f (bufBlock r') (bufCur r') of
                   Inl e \<Rightarrow> Inl e
                 | Inr c \<Rightarrow> Inr (c, r'\<lparr>pos := pos r' + 1, bufCur := bufCur r' + 1\<rparr>))))"

text \<open>The \<open>memcpy\<close> of \<open>read\<close>: \<open>n\<close> bytes from offset \<open>off\<close> on.\<close>

fun load_bytes :: "RAMFile \<Rightarrow> nat option \<Rightarrow> nat \<Rightarrow> nat \<Rightarrow> failure + byte list" where
  "load_bytes f bb off 0 = Inr []"
| "load_bytes f bb off (Suc n) =
     (case peek f bb off of
        Inl e \<Rightarrow> Inl e
      | Inr c \<Rightarrow>
          (case load_bytes f bb (Suc off) n of
             Inl e \<Rightarrow> Inl e
           | Inr cs \<Rightarrow> Inr (c # cs)))"

lemma load_bytes_length: "load_bytes f bb off n = Inr cs \<Longrightarrow> length cs = n"
  by (induction n arbitrary: off cs) (auto split: sum.splits)

text \<open>
  \<open>IndexInput::read\<close>: the loop \<open>while (bytes_copied < size && !eof())\<close>, with \<open>dst\<close> the
  bytes copied so far (\<open>bytes_copied\<close> is its length). A turn of the loop that copies
  nothing has moved the reader to another block, which bounds the number of turns.
\<close>

lemma eof_not_at_end:
  assumes "eof f r = Inr (False, r')"
  shows "0 < getNumReadableBytes r' \<or>
         (if bufBlock r' = None then 1 else 0) + (length (blocks f) - rcurrent_block r')
           < (if bufBlock r = None then (1::nat) else 0) + (length (blocks f) - rcurrent_block r)"
  using assms
  by (auto simp add: eof_def fillImpl_def in_initInternalBuffer_def hasPendingData_def Let_def
      split: if_splits sum.splits)

function read_loop ::
  "RAMFile \<Rightarrow> RAMFileIndexInput \<Rightarrow> nat \<Rightarrow> byte list \<Rightarrow> failure + (byte list \<times> RAMFileIndexInput)" where
  "read_loop f r size' dst =
     (if length dst < size' then
        (case eof f r of
           Inl e \<Rightarrow> Inl e
         | Inr (at_end, r') \<Rightarrow>
             (if at_end then Inr (dst, r')
              else
                (let bytes_to_copy = min (getNumReadableBytes r') (size' - length dst)
                 in case load_bytes f (bufBlock r') (bufCur r') bytes_to_copy of
                      Inl e \<Rightarrow> Inl e
                    | Inr cs \<Rightarrow>
                        read_loop f (r'\<lparr>bufCur := bufCur r' + bytes_to_copy\<rparr>) size' (dst @ cs))))
      else Inr (dst, r))"
  by pat_completeness auto
termination
proof (relation "measures [\<lambda>(f, r, n, dst). n - length dst,
    \<lambda>(f, r, n, dst). (if bufBlock r = None then 1 else 0) + (length (blocks f) - rcurrent_block r)]",
    goal_cases)
  case 1
  show ?case by simp
next
  case (2 f r size' dst x2 at_end r' bytes_to_copy cs)
  then have e: "eof f r = Inr (False, r')" by simp
  have len: "length cs = bytes_to_copy" using 2 load_bytes_length by blast
  show ?case
  proof (cases "bytes_to_copy = 0")
    case True
    with 2 have "getNumReadableBytes r' = 0" by (simp add: min_def split: if_splits)
    with eof_not_at_end[OF e] True len show ?thesis by simp
  next
    case False
    with 2 len show ?thesis by auto
  qed
qed

declare read_loop.simps [simp del]

definition read :: "RAMFile \<Rightarrow> RAMFileIndexInput \<Rightarrow> nat \<Rightarrow> failure + (byte list \<times> RAMFileIndexInput)" where
  "read f r size' =
     (case read_loop f r size' [] of
        Inl e \<Rightarrow> Inl e
      | Inr (dst, r') \<Rightarrow> Inr (dst, r'\<lparr>pos := pos r' + length dst\<rparr>))"

text \<open>The values \<open>readInt32\<close> and \<open>readInt64\<close> return, from the bytes in \<open>buffer\<close>.\<close>

definition readInt32_value :: "byte list \<Rightarrow> 32 word" where
  "readInt32_value buffer =
     ucast (buffer ! 0) OR push_bit 8 (ucast (buffer ! 1))
       OR push_bit 16 (ucast (buffer ! 2)) OR push_bit 24 (ucast (buffer ! 3))"

definition readInt64_value :: "byte list \<Rightarrow> 64 word" where
  "readInt64_value buffer =
     ucast (buffer ! 0) OR push_bit 8 (ucast (buffer ! 1))
       OR push_bit 16 (ucast (buffer ! 2)) OR push_bit 24 (ucast (buffer ! 3))
       OR push_bit 32 (ucast (buffer ! 4)) OR push_bit 40 (ucast (buffer ! 5))
       OR push_bit 48 (ucast (buffer ! 6)) OR push_bit 56 (ucast (buffer ! 7))"

definition readInt32 :: "RAMFile \<Rightarrow> RAMFileIndexInput \<Rightarrow> failure + (32 word \<times> RAMFileIndexInput)" where
  "readInt32 f r =
     (case read f r 4 of
        Inl e \<Rightarrow> Inl e
      | Inr (buffer, r') \<Rightarrow>
          (if length buffer < 4 then Inl (Thrown IndexCorruptionException)
           else Inr (readInt32_value buffer, r')))"

definition readInt64 :: "RAMFile \<Rightarrow> RAMFileIndexInput \<Rightarrow> failure + (64 word \<times> RAMFileIndexInput)" where
  "readInt64 f r =
     (case read f r 8 of
        Inl e \<Rightarrow> Inl e
      | Inr (buffer, r') \<Rightarrow>
          (if length buffer < 8 then Inl (Thrown IndexCorruptionException)
           else Inr (readInt64_value buffer, r')))"

definition kMaxVarintLength32 :: nat where
  "kMaxVarintLength32 = 5"

definition kMaxVarintLength64 :: nat where
  "kMaxVarintLength64 = 10"

text \<open>
  The loops of \<open>readVarint64\<close> and \<open>readVarint32\<close>, with \<open>ret\<close> and \<open>bytes_decoded\<close> as
  arguments. Leaving the loop through its condition leaves \<open>done\<close> false, which throws.
\<close>

function readVarint64_loop ::
  "RAMFile \<Rightarrow> RAMFileIndexInput \<Rightarrow> 64 word \<Rightarrow> nat \<Rightarrow> failure + (64 word \<times> RAMFileIndexInput)" where
  "readVarint64_loop f r ret bytes_decoded =
     (if bytes_decoded < kMaxVarintLength64 then
        (case eof f r of
           Inl e \<Rightarrow> Inl e
         | Inr (at_end, r') \<Rightarrow>
             (if at_end then Inl (Thrown IndexCorruptionException)
              else
                (case readByte f r' of
                   Inl e \<Rightarrow> Inl e
                 | Inr (byte, r'') \<Rightarrow>
                     (let ret' = ret OR push_bit (7 * bytes_decoded) (ucast byte AND 0x7f)
                      in if byte AND 128 = 0 then Inr (ret', r'')
                         else readVarint64_loop f r'' ret' (bytes_decoded + 1)))))
      else Inl (Thrown IndexCorruptionException))"
  by pat_completeness auto
termination
  by (relation "measure (\<lambda>(f, r, ret, n). kMaxVarintLength64 - n)") auto

declare readVarint64_loop.simps [simp del]

definition readVarint64 :: "RAMFile \<Rightarrow> RAMFileIndexInput \<Rightarrow> failure + (64 word \<times> RAMFileIndexInput)" where
  "readVarint64 f r = readVarint64_loop f r 0 0"

function readVarint32_loop ::
  "RAMFile \<Rightarrow> RAMFileIndexInput \<Rightarrow> 32 word \<Rightarrow> nat \<Rightarrow> failure + (32 word \<times> RAMFileIndexInput)" where
  "readVarint32_loop f r ret bytes_decoded =
     (if bytes_decoded < kMaxVarintLength32 then
        (case eof f r of
           Inl e \<Rightarrow> Inl e
         | Inr (at_end, r') \<Rightarrow>
             (if at_end then Inl (Thrown IndexCorruptionException)
              else
                (case readByte f r' of
                   Inl e \<Rightarrow> Inl e
                 | Inr (byte, r'') \<Rightarrow>
                     (let ret' = ret OR push_bit (7 * bytes_decoded) (ucast byte AND 0x7f)
                      in if byte AND 128 = 0 then Inr (ret', r'')
                         else readVarint32_loop f r'' ret' (bytes_decoded + 1)))))
      else Inl (Thrown IndexCorruptionException))"
  by pat_completeness auto
termination
  by (relation "measure (\<lambda>(f, r, ret, n). kMaxVarintLength32 - n)") auto

declare readVarint32_loop.simps [simp del]

definition readVarint32 :: "RAMFile \<Rightarrow> RAMFileIndexInput \<Rightarrow> failure + (32 word \<times> RAMFileIndexInput)" where
  "readVarint32 f r = readVarint32_loop f r 0 0"

text \<open>\<open>readString\<close>: \<open>buff.clear()\<close>, the size, then \<open>while (size--) buff.push_back(readByte())\<close>.\<close>

fun readString_loop ::
  "RAMFile \<Rightarrow> nat \<Rightarrow> RAMFileIndexInput \<Rightarrow> byte list \<Rightarrow> failure + (byte list \<times> RAMFileIndexInput)" where
  "readString_loop f 0 r buff = Inr (buff, r)"
| "readString_loop f (Suc n) r buff =
     (case readByte f r of
        Inl e \<Rightarrow> Inl e
      | Inr (c, r') \<Rightarrow> readString_loop f n r' (buff @ [c]))"

definition readString :: "RAMFile \<Rightarrow> RAMFileIndexInput \<Rightarrow> failure + (byte list \<times> RAMFileIndexInput)" where
  "readString f r =
     (case readVarint32 f r of
        Inl e \<Rightarrow> Inl e
      | Inr (size', r') \<Rightarrow> readString_loop f (unat size') r' [])"

text \<open>\<open>RAMFileIndexInput::seek\<close>. It does not touch \<open>pos\<close>.\<close>

definition seek :: "RAMFile \<Rightarrow> RAMFileIndexInput \<Rightarrow> nat \<Rightarrow> failure + RAMFileIndexInput" where
  "seek f r seek_pos =
     (if seek_pos < file_length f then
        (let cb = seek_pos div kBlockSize;
             block_offset = seek_pos mod kBlockSize
         in if cb < length (blocks f)
            then Inr (r\<lparr>rcurrent_block := cb, bufBlock := Some cb, bufStart := 0,
                        bufEnd := kBlockSize, bufCur := block_offset,
                        sentinel := (if cb = last_block r then last_block_bytes r
                                     else kBlockSize)\<rparr>)
            else Inl OutOfRange)
      else Inl AssertFail)"

section \<open>RAMDirectory\<close>

text \<open>
  A \<open>RAMFile *\<close> of the table is the address of \<open>dummy_file\<close> or of an object made by
  \<open>new\<close>. \<open>files\<close> is the \<open>unordered_map\<close> as an association list in the order its
  iteration visits the entries. \<open>store\<close> holds the objects made by \<open>new\<close>, by address:
  \<open>None\<close> once the object is deleted; an address is never used twice.
  \<open>dummy_file\<close> is \<open>const\<close> with length 0; only its \<open>mutable refs_\<close> can change
  (\<open>dummy_refs\<close>).
\<close>

datatype file_ptr = DummyFile | FilePtr nat

record RAMDirectory =
  files :: "(string \<times> file_ptr) list"
  store :: "RAMFile option list"
  dummy_refs :: int

definition new_RAMDirectory :: RAMDirectory where
  "new_RAMDirectory = \<lparr>files = [], store = [], dummy_refs = 0\<rparr>"

definition dummy_file :: "RAMDirectory \<Rightarrow> RAMFile" where
  "dummy_file d = \<lparr>blocks = [], file_length = 0, refs = dummy_refs d, file_name = []\<rparr>"

definition lookup_store :: "RAMDirectory \<Rightarrow> nat \<Rightarrow> RAMFile option" where
  "lookup_store d a = (if a < length (store d) then store d ! a else None)"

definition deref :: "RAMDirectory \<Rightarrow> file_ptr \<Rightarrow> RAMFile option" where
  "deref d p = (case p of DummyFile \<Rightarrow> Some (dummy_file d) | FilePtr a \<Rightarrow> lookup_store d a)"

text \<open>
  An operation of the directory returns the directory as it leaves it and either what it
  throws or aborts with, or its result.
\<close>

type_synonym 'a outcome = "RAMDirectory \<times> (failure + 'a)"

text \<open>\<open>commit\<close>: the name must be bound to \<open>dummy_file\<close>; the file gets \<open>refs_ = 1\<close> and
  the entry is bound to it.\<close>

definition commit :: "RAMDirectory \<Rightarrow> string \<Rightarrow> RAMFile \<Rightarrow> unit outcome" where
  "commit d fname file =
     (if map_of (files d) fname = Some DummyFile
      then (d\<lparr>files := AList.update fname (FilePtr (length (store d))) (files d),
               store := store d @ [Some (file\<lparr>refs := 1\<rparr>)]\<rparr>, Inr ())
      else (d, Inl AssertFail))"

text \<open>\<open>~RAMFileIndexOutput\<close>: the length becomes the position if that is larger, then
  \<open>finish_writing\<close> commits the file under its name.\<close>

definition closeOutput :: "RAMDirectory \<Rightarrow> RAMFileIndexOutput \<Rightarrow> unit outcome" where
  "closeOutput d w =
     (let f = (if file_length (wfile w) < pos w then (wfile w)\<lparr>file_length := pos w\<rparr>
               else wfile w)
      in commit d (file_name f) f)"

text \<open>\<open>unrefReader\<close>: the count goes down by one; at zero the file is deleted.\<close>

definition unrefReader :: "RAMDirectory \<Rightarrow> nat \<Rightarrow> unit outcome" where
  "unrefReader d a =
     (case lookup_store d a of
        None \<Rightarrow> (d, Inl Dangling)
      | Some f \<Rightarrow>
          (let c = refs f - 1
           in if c = 0 then (d\<lparr>store := (store d)[a := None]\<rparr>, Inr ())
              else (d\<lparr>store := (store d)[a := Some (f\<lparr>refs := c\<rparr>)]\<rparr>, Inr ())))"

text \<open>\<open>~RAMFileIndexInput\<close> calls \<open>finish_reading\<close>, which calls \<open>unrefReader\<close>.\<close>

definition closeInput :: "RAMDirectory \<Rightarrow> RAMFileIndexInput \<Rightarrow> unit outcome" where
  "closeInput d r = unrefReader d (rfile r)"

definition releaseLock :: "RAMDirectory \<Rightarrow> string \<Rightarrow> unit outcome" where
  "releaseLock d fname =
     (case map_of (files d) fname of
        None \<Rightarrow> (d, Inr ())
      | Some DummyFile \<Rightarrow> (d\<lparr>files := AList.delete fname (files d)\<rparr>, Inr ())
      | Some (FilePtr a) \<Rightarrow> (d, Inl AssertFail))"

definition listAll :: "RAMDirectory \<Rightarrow> string list" where
  "listAll d = map fst (files d)"

definition deleteFile :: "RAMDirectory \<Rightarrow> string \<Rightarrow> unit outcome" where
  "deleteFile d fname =
     (case map_of (files d) fname of
        None \<Rightarrow> (d, Inl (Thrown FileNotFoundException))
      | Some DummyFile \<Rightarrow> (d, Inl AssertFail)
      | Some (FilePtr a) \<Rightarrow>
          (case lookup_store d a of
             None \<Rightarrow> (d, Inl Dangling)
           | Some f \<Rightarrow>
               (let ref_count = refs f - 1;
                    d' = d\<lparr>files := AList.delete fname (files d)\<rparr>
                in if ref_count = 0 then (d'\<lparr>store := (store d)[a := None]\<rparr>, Inr ())
                   else (d'\<lparr>store := (store d)[a := Some (f\<lparr>refs := ref_count\<rparr>)]\<rparr>, Inr ()))))"

definition fileLength :: "RAMDirectory \<Rightarrow> string \<Rightarrow> nat outcome" where
  "fileLength d fname =
     (case map_of (files d) fname of
        None \<Rightarrow> (d, Inl (Thrown FileNotFoundException))
      | Some p \<Rightarrow>
          (case deref d p of
             None \<Rightarrow> (d, Inl Dangling)
           | Some f \<Rightarrow> (d, Inr (file_length f))))"

definition createOutput :: "RAMDirectory \<Rightarrow> string \<Rightarrow> RAMFileIndexOutput outcome" where
  "createOutput d fname =
     (case map_of (files d) fname of
        Some p \<Rightarrow> (d, Inl (Thrown FileAlreadyExistsException))
      | None \<Rightarrow>
          (d\<lparr>files := AList.update fname DummyFile (files d)\<rparr>,
           Inr (new_RAMFileIndexOutput fname)))"

definition rename :: "RAMDirectory \<Rightarrow> string \<Rightarrow> string \<Rightarrow> unit outcome" where
  "rename d src target =
     (case map_of (files d) src of
        None \<Rightarrow> (d, Inl (Thrown FileNotFoundException))
      | Some p \<Rightarrow>
          (case map_of (files d) target of
             Some q \<Rightarrow> (d, Inl (Thrown FileAlreadyExistsException))
           | None \<Rightarrow>
               (d\<lparr>files := AList.delete src (AList.update target p (files d))\<rparr>, Inr ())))"

definition openInput :: "RAMDirectory \<Rightarrow> string \<Rightarrow> RAMFileIndexInput outcome" where
  "openInput d fname =
     (case map_of (files d) fname of
        None \<Rightarrow> (d, Inl (Thrown FileNotFoundException))
      | Some DummyFile \<Rightarrow> (d, Inl AssertFail)
      | Some (FilePtr a) \<Rightarrow>
          (case lookup_store d a of
             None \<Rightarrow> (d, Inl Dangling)
           | Some f \<Rightarrow>
               (case new_RAMFileIndexInput a f of
                  Inl e \<Rightarrow> (d, Inl e)
                | Inr input \<Rightarrow>
                    (d\<lparr>store := (store d)[a := Some (f\<lparr>refs := refs f + 1\<rparr>)]\<rparr>, Inr input))))"

text \<open>\<open>RAMDirectoryLockFile\<close>: the name it will release. \<open>obtainLock\<close> returns a null
  pointer (\<open>None\<close>) when the name is in the table.\<close>

record RAMDirectoryLockFile =
  lock_name :: string

definition obtainLock :: "RAMDirectory \<Rightarrow> string \<Rightarrow> RAMDirectory \<times> RAMDirectoryLockFile option" where
  "obtainLock d fname =
     (case map_of (files d) fname of
        Some p \<Rightarrow> (d, None)
      | None \<Rightarrow>
          (d\<lparr>files := AList.update fname DummyFile (files d)\<rparr>, Some \<lparr>lock_name = fname\<rparr>))"

text \<open>\<open>~RAMDirectoryLockFile\<close> releases the lock.\<close>

definition closeLock :: "RAMDirectory \<Rightarrow> RAMDirectoryLockFile \<Rightarrow> unit outcome" where
  "closeLock d l = releaseLock d (lock_name l)"

definition fileExists :: "RAMDirectory \<Rightarrow> string \<Rightarrow> bool" where
  "fileExists d fname = (map_of (files d) fname \<noteq> None)"

text \<open>
  \<open>deleteSegment\<close>. The loop is over the entries the table holds when it starts. An
  entry whose name starts with \<open>segment\<close> must pass
  \<open>assert(pair.second == &dummy_file)\<close>; it is then erased and the count of the file
  it points to (\<open>dummy_file\<close>, after the assertion) goes down by one, with \<open>delete\<close> at
  zero. C++ leaves the step of the iterator past an erased entry undefined; the model
  goes on with the entry that followed it.
\<close>

fun deleteSegment_loop :: "(string \<times> file_ptr) list \<Rightarrow> string \<Rightarrow> RAMDirectory \<Rightarrow> unit outcome" where
  "deleteSegment_loop [] segment d = (d, Inr ())"
| "deleteSegment_loop ((first, second) # rest) segment d =
     (if length segment \<le> length first \<and> segment = take (length segment) first then
        (if second = DummyFile then
           (let d' = d\<lparr>files := AList.delete first (files d), dummy_refs := dummy_refs d - 1\<rparr>
            in if dummy_refs d' = 0 then (d', Inl InvalidDelete)
               else deleteSegment_loop rest segment d')
         else (d, Inl AssertFail))
      else deleteSegment_loop rest segment d)"

definition deleteSegment :: "RAMDirectory \<Rightarrow> string \<Rightarrow> unit outcome" where
  "deleteSegment d segment = deleteSegment_loop (files d) segment d"

section \<open>Sequences of calls\<close>

text \<open>A caller's successive \<open>write\<close> calls on one writer, and the destruction of several
  readers one after the other. Each stops at the first failure.\<close>

fun write_all :: "RAMFileIndexOutput \<Rightarrow> byte list list \<Rightarrow> failure + RAMFileIndexOutput" where
  "write_all w [] = Inr w"
| "write_all w (c # cs) =
     (case write_bytes w c of Inl e \<Rightarrow> Inl e | Inr w' \<Rightarrow> write_all w' cs)"

fun closeInputs :: "RAMDirectory \<Rightarrow> RAMFileIndexInput list \<Rightarrow> unit outcome" where
  "closeInputs d [] = (d, Inr ())"
| "closeInputs d (r # rs) =
     (case closeInput d r of
        (d', Inl e) \<Rightarrow> (d', Inl e)
      | (d', Inr u) \<Rightarrow> closeInputs d' rs)"

text \<open>The bytes of the string \<open>hello\<close>.\<close>

definition hello :: "byte list" where
  "hello = map of_char ''hello''"

section \<open>Notions for the proofs\<close>

text \<open>
  The definitions of this section are not code of the repository: they say what a file
  holds and where a stream stands, for the statements and proofs below.

  \<open>cell bl i\<close> is the byte at position \<open>i\<close> of a file with the blocks \<open>bl\<close>, and
  \<open>holds bl data\<close> says that the positions below \<open>length data\<close> hold the bytes of \<open>data\<close>.
\<close>

definition cell :: "block list \<Rightarrow> nat \<Rightarrow> byte option" where
  "cell bl i = (if i div kBlockSize < length bl then (bl ! (i div kBlockSize)) (i mod kBlockSize) else None)"

definition holds :: "block list \<Rightarrow> byte list \<Rightarrow> bool" where
  "holds bl data = (\<forall>i<length data. cell bl i = Some (data ! i))"

text \<open>
  \<open>writing w data\<close>: the writer \<open>w\<close> has been given the bytes \<open>data\<close> by \<open>write\<close> calls and
  nothing else. Its position is their number, its file holds them, and its buffer is
  either not yet created or is the last block of the file, filled up to \<open>bufCur\<close>.
\<close>

definition writing :: "RAMFileIndexOutput \<Rightarrow> byte list \<Rightarrow> bool" where
  "writing w data =
     (pos w = length data \<and> holds (blocks (wfile w)) data \<and>
      file_length (wfile w) \<le> length data \<and>
      (case bufBlock w of
         None \<Rightarrow> data = [] \<and> blocks (wfile w) = [] \<and> bufCur w = 0 \<and> bufEnd w = 0 \<and>
                 wcurrent_block w = 0
       | Some b \<Rightarrow> b = wcurrent_block w \<and> Suc b = length (blocks (wfile w)) \<and>
                 bufEnd w = kBlockSize \<and> bufStart w \<le> bufCur w \<and> bufStart w < kBlockSize \<and>
                 bufCur w \<le> kBlockSize \<and> length data = b * kBlockSize + bufCur w))"

text \<open>\<open>file_holds f data\<close>: the file has the length of \<open>data\<close> and holds its bytes.\<close>

definition file_holds :: "RAMFile \<Rightarrow> byte list \<Rightarrow> bool" where
  "file_holds f data = (file_length f = length data \<and> holds (blocks f) data)"

text \<open>
  \<open>reading f r p\<close>: the reader \<open>r\<close> was constructed on \<open>f\<close> and stands at position \<open>p\<close>:
  it has no buffer yet and \<open>p = 0\<close>, or its buffer is block \<open>current_block\<close> with the
  sentinel at the end of the block and \<open>bufCur\<close> at the offset of \<open>p\<close> in it.
\<close>

definition reading :: "RAMFile \<Rightarrow> RAMFileIndexInput \<Rightarrow> nat \<Rightarrow> bool" where
  "reading f r p =
     (last_block r = (file_length f - 1) div kBlockSize + 1 \<and>
      (case bufBlock r of
         None \<Rightarrow> p = 0 \<and> rcurrent_block r = 0 \<and> sentinel r = 0 \<and> bufCur r = 0
       | Some b \<Rightarrow> b = rcurrent_block r \<and> sentinel r = kBlockSize \<and> bufCur r \<le> kBlockSize \<and>
                 p = b * kBlockSize + bufCur r \<and> b < last_block r))"

text \<open>The loops of \<open>readVarint32\<close> and \<open>readVarint64\<close> over the bytes that are still to
  come: the value and the count of bytes decoded, or \<open>None\<close> when the bytes end or the
  limit is reached before a byte without the continuation bit.\<close>

fun varint32_of :: "byte list \<Rightarrow> 32 word \<Rightarrow> nat \<Rightarrow> (32 word \<times> nat) option" where
  "varint32_of [] ret k = None"
| "varint32_of (byte # bs) ret k =
     (if k < kMaxVarintLength32 then
        (let ret' = ret OR push_bit (7 * k) (ucast byte AND 0x7f)
         in if byte AND 128 = 0 then Some (ret', Suc k) else varint32_of bs ret' (Suc k))
      else None)"

fun varint64_of :: "byte list \<Rightarrow> 64 word \<Rightarrow> nat \<Rightarrow> (64 word \<times> nat) option" where
  "varint64_of [] ret k = None"
| "varint64_of (byte # bs) ret k =
     (if k < kMaxVarintLength64 then
        (let ret' = ret OR push_bit (7 * k) (ucast byte AND 0x7f)
         in if byte AND 128 = 0 then Some (ret', Suc k) else varint64_of bs ret' (Suc k))
      else None)"

text \<open>LEB128 with \<open>m\<close> continuation bytes followed by a last byte.\<close>

fun leb128 :: "nat \<Rightarrow> 32 word \<Rightarrow> byte list" where
  "leb128 0 x = [ucast x]"
| "leb128 (Suc m) x = ucast (x OR 128) # leb128 m (drop_bit 7 x)"

text \<open>A directory for the examples: a held lock \<open>lock\<close>, a committed one-byte file \<open>g\<close>
  with no reader, and nothing under the name \<open>f\<close>.\<close>

definition example_dir :: RAMDirectory where
  "example_dir =
     \<lparr>files = [(''lock'', DummyFile), (''g'', FilePtr 0)],
      store = [Some \<lparr>blocks = [(\<lambda>_. None)(0 \<mapsto> 7)], file_length = 1, refs = 1, file_name = ''g''\<rparr>],
      dummy_refs = 0\<rparr>"

text \<open>The sixteen bytes of the example scenario: the maximal 64-bit value, the length
  byte and the bytes of \<open>hello\<close>, and the two bytes of the varint 300.\<close>

definition example_data :: "byte list" where
  "example_data = [255, 255, 255, 255, 255, 255, 255, 255, 5, 104, 101, 108, 108, 111, 172, 2]"

section \<open>Scenarios\<close>

text \<open>
  A scenario is a caller's sequence of calls. Each call runs on what the call before it
  returned, and the first failure ends the scenario and is its result: \<open>and_then\<close> for a
  stream, \<open>in_dir\<close> for an operation of the directory, \<open>with_file\<close> for a reader reaching
  its file in the store.
\<close>

definition and_then :: "failure + 'a \<Rightarrow> ('a \<Rightarrow> failure + 'b) \<Rightarrow> failure + 'b" where
  "and_then m k = (case m of Inl e \<Rightarrow> Inl e | Inr x \<Rightarrow> k x)"

definition in_dir :: "'a outcome \<Rightarrow> (RAMDirectory \<Rightarrow> 'a \<Rightarrow> failure + 'b) \<Rightarrow> failure + 'b" where
  "in_dir m k = (case m of (d, Inl e) \<Rightarrow> Inl e | (d, Inr x) \<Rightarrow> k d x)"

definition with_file ::
  "RAMDirectory \<Rightarrow> RAMFileIndexInput \<Rightarrow> (RAMFile \<Rightarrow> failure + 'b) \<Rightarrow> failure + 'b" where
  "with_file d r k = (case lookup_store d (rfile r) of None \<Rightarrow> Inl Dangling | Some f \<Rightarrow> k f)"

text \<open>\<open>createOutput(fname)\<close>, the calls \<open>writes\<close> on the writer, the writer's destruction,
  \<open>openInput(fname)\<close>, and the calls \<open>reads\<close> on the reader.\<close>

definition written_and_opened ::
  "RAMDirectory \<Rightarrow> string \<Rightarrow> (RAMFileIndexOutput \<Rightarrow> failure + RAMFileIndexOutput) \<Rightarrow>
   (RAMFile \<Rightarrow> RAMFileIndexInput \<Rightarrow> failure + 'b) \<Rightarrow> failure + 'b" where
  "written_and_opened d fname writes reads =
     in_dir (createOutput d fname) (\<lambda>d1 output.
     and_then (writes output) (\<lambda>output'.
     in_dir (closeOutput d1 output') (\<lambda>d2 u.
     in_dir (openInput d2 fname) (\<lambda>d3 input.
     with_file d3 input (\<lambda>f. reads f input)))))"

text \<open>One value written to the file \<open>f\<close> of a new directory and read back.\<close>

definition roundtrip ::
  "(RAMFileIndexOutput \<Rightarrow> failure + RAMFileIndexOutput) \<Rightarrow>
   (RAMFile \<Rightarrow> RAMFileIndexInput \<Rightarrow> failure + 'a \<times> RAMFileIndexInput) \<Rightarrow> failure + 'a" where
  "roundtrip writes reads =
     written_and_opened new_RAMDirectory ''f'' writes
       (\<lambda>f input. and_then (reads f input) (\<lambda>(v, input'). Inr v))"

text \<open>The example scenario of the specification, with the four values the reader
  returns.\<close>

definition example_scenario :: "failure + (64 word \<times> byte list \<times> 32 word \<times> bool)" where
  "example_scenario =
     written_and_opened new_RAMDirectory ''f''
       (\<lambda>output. and_then (writeInt64 output 0xFFFFFFFFFFFFFFFF) (\<lambda>output.
                  and_then (writeString output hello) (\<lambda>output.
                  writeVarint32 output 300)))
       (\<lambda>f input. and_then (readInt64 f input) (\<lambda>(a, input).
                   and_then (readString f input) (\<lambda>(b, input).
                   and_then (readVarint32 f input) (\<lambda>(c, input).
                   and_then (eof f input) (\<lambda>(at_end, input). Inr (a, b, c, at_end))))))"

text \<open>The chunks written one \<open>write\<close> call each, then \<open>seek(p)\<close> and \<open>read\<close> of \<open>n\<close> bytes on
  the reader.\<close>

definition write_seek_read ::
  "RAMDirectory \<Rightarrow> string \<Rightarrow> byte list list \<Rightarrow> nat \<Rightarrow> nat \<Rightarrow> failure + byte list" where
  "write_seek_read d fname chunks p n =
     written_and_opened d fname (\<lambda>output. write_all output chunks)
       (\<lambda>f input. and_then (seek f input p) (\<lambda>input'.
                   and_then (read f input' n) (\<lambda>(dst, input''). Inr dst)))"

text \<open>A file with the bytes \<open>bs\<close> committed under \<open>fname\<close> in a new directory, then
  \<open>deleteSegment(segment)\<close>: what the call returns and the names \<open>listAll\<close> reports
  after it.\<close>

definition commit_then_deleteSegment ::
  "string \<Rightarrow> byte list \<Rightarrow> string \<Rightarrow> failure + ((failure + unit) \<times> string list)" where
  "commit_then_deleteSegment fname bs segment =
     in_dir (createOutput new_RAMDirectory fname) (\<lambda>d1 output.
     and_then (write_bytes output bs) (\<lambda>output'.
     in_dir (closeOutput d1 output') (\<lambda>d2 u.
       (case deleteSegment d2 segment of (d3, res) \<Rightarrow> Inr (res, listAll d3)))))"

section \<open>The directory's table\<close>

lemma map_of_update: "map_of (AList.update k v al) = (map_of al)(k \<mapsto> v)"
  by (rule update_conv')

lemma map_of_delete: "map_of (AList.delete k al) = (map_of al)(k := None)"
  by (rule delete_conv')

section \<open>What a writer has written\<close>

lemma store_bytes_apply:
  "store_bytes b off cs i =
     (if off \<le> i \<and> i < off + length cs then Some (cs ! (i - off)) else b i)"
proof (induction cs arbitrary: b off i)
  case Nil
  then show ?case by auto
next
  case (Cons c cs)
  show ?case
  proof (cases "i = off")
    case True
    then show ?thesis by (simp add: Cons.IH)
  next
    case False
    then show ?thesis by (auto simp add: Cons.IH nth_Cons' )
  qed
qed

lemma block_div_mod:
  "m < kBlockSize \<Longrightarrow> (b * kBlockSize + m) div kBlockSize = b \<and> (b * kBlockSize + m) mod kBlockSize = m"
  by simp

lemma cell_append: "i div kBlockSize < length bl \<Longrightarrow> cell (bl @ xs) i = cell bl i"
  by (simp add: cell_def nth_append)

lemma cell_Some_in_range: "cell bl i = Some c \<Longrightarrow> i div kBlockSize < length bl"
  by (simp add: cell_def split: if_splits)

lemma holds_append: "holds bl data \<Longrightarrow> holds (bl @ xs) data"
  unfolding holds_def using cell_append cell_Some_in_range by metis

lemma cell_store:
  assumes "b < length bl" "cur + length cs \<le> kBlockSize"
  shows "cell (bl[b := store_bytes (bl ! b) cur cs]) i =
     (if b * kBlockSize + cur \<le> i \<and> i < b * kBlockSize + cur + length cs
      then Some (cs ! (i - (b * kBlockSize + cur))) else cell bl i)"
proof (cases "i div kBlockSize = b")
  case True
  have i: "i = b * kBlockSize + i mod kBlockSize"
    using True by (metis div_mult_mod_eq)
  have "cell (bl[b := store_bytes (bl ! b) cur cs]) i = store_bytes (bl ! b) cur cs (i mod kBlockSize)"
    using True assms(1) by (simp add: cell_def)
  also have "\<dots> = (if cur \<le> i mod kBlockSize \<and> i mod kBlockSize < cur + length cs
      then Some (cs ! (i mod kBlockSize - cur)) else (bl ! b) (i mod kBlockSize))"
    by (rule store_bytes_apply)
  also have "\<dots> = (if b * kBlockSize + cur \<le> i \<and> i < b * kBlockSize + cur + length cs
      then Some (cs ! (i - (b * kBlockSize + cur))) else cell bl i)"
  proof -
    have a: "(cur \<le> i mod kBlockSize) = (b * kBlockSize + cur \<le> i)" using i by linarith
    have b: "(i mod kBlockSize < cur + length cs) = (i < b * kBlockSize + cur + length cs)" using i by linarith
    have c: "i mod kBlockSize - cur = i - (b * kBlockSize + cur)" using i by linarith
    have d: "(bl ! b) (i mod kBlockSize) = cell bl i" using True assms(1) by (simp add: cell_def)
    show ?thesis by (simp only: a b c d)
  qed
  finally show ?thesis .
next
  case False
  have out: "\<not> (b * kBlockSize + cur \<le> i \<and> i < b * kBlockSize + cur + length cs)"
  proof
    assume h: "b * kBlockSize + cur \<le> i \<and> i < b * kBlockSize + cur + length cs"
    then have "i - b * kBlockSize < kBlockSize" using assms(2) by linarith
    moreover have "i = b * kBlockSize + (i - b * kBlockSize)" using h by linarith
    ultimately have "i div kBlockSize = b" using block_div_mod by metis
    with False show False by simp
  qed
  have "cell (bl[b := store_bytes (bl ! b) cur cs]) i = cell bl i"
    using False by (simp add: cell_def)
  then show ?thesis unfolding if_not_P[OF out] .
qed

lemma writing_new: "writing (new_RAMFileIndexOutput fname) []"
  by (simp add: writing_def new_RAMFileIndexOutput_def new_RAMFile_def holds_def)

lemma writing_init:
  assumes "writing w data" "bufBlock w = None"
  shows "writing (out_initInternalBuffer w) data" "available (out_initInternalBuffer w) = kBlockSize"
    "file_name (wfile (out_initInternalBuffer w)) = file_name (wfile w)"
  using assms kBlockSize_pos
  by (auto simp add: writing_def out_initInternalBuffer_def alloc_def holds_def available_def)

lemma writing_copy:
  assumes "writing w data" "length cs \<le> available w"
  shows "\<exists>w1. copyToBuffer w cs = Inr w1 \<and> writing (w1\<lparr>pos := pos w1 + length cs\<rparr>) (data @ cs) \<and>
           file_name (wfile w1) = file_name (wfile w) \<and> available w1 = available w - length cs"
proof (cases "cs = []")
  case True
  with assms show ?thesis by (simp add: copyToBuffer_def)
next
  case False
  with assms(2) have av: "0 < available w" by (cases cs) auto
  then obtain b where b: "bufBlock w = Some b"
    using assms(1) by (cases "bufBlock w") (auto simp add: writing_def available_def)
  from assms(1) b have inv: "pos w = length data" "holds (blocks (wfile w)) data"
    "file_length (wfile w) \<le> length data" "b = wcurrent_block w" "Suc b = length (blocks (wfile w))"
    "bufEnd w = kBlockSize" "bufStart w \<le> bufCur w" "bufStart w < kBlockSize" "bufCur w \<le> kBlockSize"
    "length data = b * kBlockSize + bufCur w"
    by (auto simp add: writing_def)
  have fit: "bufCur w + length cs \<le> kBlockSize" using assms(2) inv(6,9) by (simp add: available_def)
  have blt: "b < length (blocks (wfile w))" using inv(5) by simp
  let ?bl = "(blocks (wfile w))[b := store_bytes (blocks (wfile w) ! b) (bufCur w) cs]"
  let ?w1 = "w\<lparr>wfile := (wfile w)\<lparr>blocks := ?bl\<rparr>, bufCur := bufCur w + length cs\<rparr>"
  have c: "copyToBuffer w cs = Inr ?w1"
    using False assms(2) b blt by (simp add: copyToBuffer_def)
  have h: "holds ?bl (data @ cs)"
    unfolding holds_def
  proof (intro allI impI)
    fix i assume i: "i < length (data @ cs)"
    show "cell ?bl i = Some ((data @ cs) ! i)"
    proof (cases "i < length data")
      case True
      then have "cell ?bl i = cell (blocks (wfile w)) i"
        using cell_store[OF blt fit, of i] inv(10) by simp
      then show ?thesis using True inv(2) by (simp add: holds_def nth_append)
    next
      case False
      then have "cell ?bl i = Some (cs ! (i - length data))"
        using cell_store[OF blt fit, of i] inv(10) i by simp
      then show ?thesis using False by (simp add: nth_append)
    qed
  qed
  have "writing (?w1\<lparr>pos := pos ?w1 + length cs\<rparr>) (data @ cs)"
    using inv h fit b by (simp add: writing_def)
  moreover have "available ?w1 = available w - length cs" by (simp add: available_def)
  ultimately show ?thesis using c by simp
qed

lemma writing_flush_full:
  assumes "writing w data" "bufCur w = kBlockSize"
  shows "\<exists>w2. flushNonEmpty w = Inr w2 \<and> writing w2 data \<and> available w2 = kBlockSize \<and>
           file_name (wfile w2) = file_name (wfile w) \<and> bufBlock w2 \<noteq> None"
proof -
  from assms kBlockSize_pos obtain b where b: "bufBlock w = Some b"
    by (cases "bufBlock w") (auto simp add: writing_def)
  from assms(1) b have inv: "pos w = length data" "holds (blocks (wfile w)) data"
    "file_length (wfile w) \<le> length data" "b = wcurrent_block w" "Suc b = length (blocks (wfile w))"
    "bufEnd w = kBlockSize" "bufStart w \<le> bufCur w" "bufStart w < kBlockSize" "bufCur w \<le> kBlockSize"
    "length data = b * kBlockSize + bufCur w"
    by (auto simp add: writing_def)
  show ?thesis
    using inv(1-4,6-10) inv(5)[symmetric] assms(2) b holds_append[OF inv(2)]
    by (simp add: flushNonEmpty_def getNumWritableBytes_def writeImpl_def Let_def alloc_def
        writing_def available_def)
qed

lemma write_bytes_writing:
  "writing w data \<Longrightarrow>
     \<exists>w'. write_bytes w bs = Inr w' \<and> writing w' (data @ bs) \<and>
          file_name (wfile w') = file_name (wfile w)"
proof (induction w bs arbitrary: data rule: write_bytes.induct)
  case (1 w ptr)
  show ?case
  proof (cases "available w < length ptr")
    case False
    then have le: "length ptr \<le> available w" by simp
    from writing_copy[OF "1.prems" le] False show ?thesis
      by (subst write_bytes.simps) auto
  next
    case True
    show ?thesis
    proof (cases "bufBlock w = None")
      case N: True
      from "1.prems" N have "data = []" by (simp add: writing_def)
      from "1.IH"(1)[OF True N writing_init(1)[OF "1.prems" N]] writing_init(3)[OF "1.prems" N]
      show ?thesis using True N by (subst write_bytes.simps) auto
    next
      case S: False
      then obtain b where b: "bufBlock w = Some b" by auto
      define avail where "avail = available w"
      have lt: "avail < length ptr" using True avail_def by simp
      have tk: "length (take avail ptr) = avail" using lt by simp
      from writing_copy[OF "1.prems", of "take avail ptr"] tk avail_def
      obtain w1 where w1: "copyToBuffer w (take avail ptr) = Inr w1"
        "writing (w1\<lparr>pos := pos w1 + avail\<rparr>) (data @ take avail ptr)"
        "file_name (wfile w1) = file_name (wfile w)" "available w1 = 0"
        by auto
      let ?w1 = "w1\<lparr>pos := pos w1 + avail\<rparr>"
      have full: "bufCur ?w1 = kBlockSize"
        using w1(2,4) S copyToBuffer_Inr(4)[OF w1(1)]
        by (auto simp add: writing_def available_def split: option.splits)
      from writing_flush_full[OF w1(2) full]
      obtain w2 where w2: "flushNonEmpty ?w1 = Inr w2" "writing w2 (data @ take avail ptr)"
        "file_name (wfile w2) = file_name (wfile ?w1)"
        by auto
      from "1.IH"(2)[OF True S avail_def w1(1) w2(1) w2(2)]
      obtain w' where w': "write_bytes w2 (drop avail ptr) = Inr w'"
        "writing w' ((data @ take avail ptr) @ drop avail ptr)"
        "file_name (wfile w') = file_name (wfile w2)"
        by auto
      have "write_bytes w ptr = Inr w'"
        using True b w1(1) w2(1) w'(1) avail_def by (subst write_bytes.simps) (simp add: Let_def)
      then show ?thesis using w'(2,3) w2(3) w1(3) by simp
    qed
  qed
qed

section \<open>What a reader reads\<close>

lemma reading_new:
  "new_RAMFileIndexInput a f = Inr r \<Longrightarrow> reading f r 0 \<and> rfile r = a \<and> pos r = 0"
  by (auto simp add: new_RAMFileIndexInput_def reading_def split: if_splits)

lemma reading_pos [simp]: "reading f (r\<lparr>pos := x\<rparr>) p = reading f r p"
  by (simp add: reading_def split: option.split)

lemma reading_advance:
  assumes "reading f r p" "bufBlock r \<noteq> None" "bufCur r + m \<le> kBlockSize"
  shows "reading f (r\<lparr>bufCur := bufCur r + m\<rparr>) (p + m)"
  using assms by (auto simp add: reading_def)

lemma holds_block:
  assumes "holds bl data" "p < length data"
  shows "p div kBlockSize < length bl" "(bl ! (p div kBlockSize)) (p mod kBlockSize) = Some (data ! p)"
proof -
  from assms have c: "cell bl p = Some (data ! p)" by (simp add: holds_def)
  then show "p div kBlockSize < length bl" by (rule cell_Some_in_range)
  with c show "(bl ! (p div kBlockSize)) (p mod kBlockSize) = Some (data ! p)" by (simp add: cell_def)
qed

lemma eof_reading:
  assumes h: "file_holds f data" and r: "reading f r p" and p: "p < length data"
  shows "\<exists>r'. eof f r = Inr (False, r') \<and> reading f r' p \<and>
           bufBlock r' = Some (p div kBlockSize) \<and> bufCur r' = p mod kBlockSize \<and>
           sentinel r' = kBlockSize \<and> pos r' = pos r \<and> rfile r' = rfile r"
proof -
  from h have len: "file_length f = length data" and hb: "holds (blocks f) data"
    by (simp_all add: file_holds_def)
  from r have lb: "last_block r = (length data - 1) div kBlockSize + 1"
    by (simp add: reading_def len)
  note blk = holds_block[OF hb p]
  show ?thesis
  proof (cases "bufBlock r")
    case None
    with r have z: "p = 0" "rcurrent_block r = 0" "sentinel r = 0" "bufCur r = 0"
      by (simp_all add: reading_def)
    from blk(1) z(1) have ne: "0 < length (blocks f)" by simp
    show ?thesis
      using None z ne lb r kBlockSize_pos
      by (simp add: eof_def hasPendingData_def getNumReadableBytes_def fillImpl_def
          in_initInternalBuffer_def reading_def)
  next
    case (Some b)
    with r have s: "b = rcurrent_block r" "sentinel r = kBlockSize" "bufCur r \<le> kBlockSize"
      "p = b * kBlockSize + bufCur r" "b < last_block r"
      by (simp_all add: reading_def)
    show ?thesis
    proof (cases "bufCur r < kBlockSize")
      case True
      from block_div_mod[OF True, of b] s(4)
      have "p div kBlockSize = b" "p mod kBlockSize = bufCur r" by simp_all
      then show ?thesis using True Some s r
        by (simp add: eof_def hasPendingData_def getNumReadableBytes_def)
    next
      case False
      with s(3) have full: "bufCur r = kBlockSize" by simp
      then have pe: "p = Suc b * kBlockSize" using s(4) by simp
      then have d: "p div kBlockSize = Suc b" "p mod kBlockSize = 0"
        using kBlockSize_pos by simp_all
      from blk(1) d have inr: "Suc b < length (blocks f)" by simp
      have "Suc b * kBlockSize \<le> length data - 1" using pe p by simp
      then have "Suc b \<le> (length data - 1) div kBlockSize"
        using kBlockSize_pos by (simp add: less_eq_div_iff_mult_less_eq)
      then have nl: "Suc b < last_block r" using lb by simp
      show ?thesis
        using full Some s(1,2,5) inr nl d pe r
        by (simp add: eof_def hasPendingData_def getNumReadableBytes_def fillImpl_def Let_def
            reading_def)
    qed
  qed
qed

lemma eof_never:
  assumes "reading f r p" "eof f r = Inr (at_end, r')"
  shows "\<not> at_end"
  using assms
  by (auto simp add: eof_def fillImpl_def in_initInternalBuffer_def reading_def Let_def
      split: if_splits option.splits sum.splits)

lemma readByte_reading:
  assumes h: "file_holds f data" and r: "reading f r p" and p: "p < length data"
  shows "\<exists>r'. readByte f r = Inr (data ! p, r') \<and> reading f r' (Suc p) \<and>
           pos r' = pos r + 1 \<and> rfile r' = rfile r"
proof -
  from eof_reading[OF h r p] obtain r1 where r1: "eof f r = Inr (False, r1)" "reading f r1 p"
    "bufBlock r1 = Some (p div kBlockSize)" "bufCur r1 = p mod kBlockSize"
    "sentinel r1 = kBlockSize" "pos r1 = pos r" "rfile r1 = rfile r"
    by auto
  from h have hb: "holds (blocks f) data" by (simp add: file_holds_def)
  note blk = holds_block[OF hb p]
  have pk: "peek f (bufBlock r1) (bufCur r1) = Inr (data ! p)"
    using blk r1(3,4) by (simp add: peek_def)
  have lt: "p mod kBlockSize < kBlockSize" using kBlockSize_pos by simp
  have "reading f (r1\<lparr>bufCur := bufCur r1 + 1\<rparr>) (p + 1)"
    using r1(2,3,4) lt by (intro reading_advance) simp_all
  then have "reading f (r1\<lparr>pos := pos r1 + 1, bufCur := bufCur r1 + 1\<rparr>) (Suc p)"
    by (simp add: reading_def split: option.splits)
  then show ?thesis using r1 pk by (simp add: readByte_def)
qed

lemma load_bytes_holds:
  assumes "holds (blocks f) data"
  shows "b * kBlockSize + off + n \<le> length data \<Longrightarrow> off + n \<le> kBlockSize \<Longrightarrow>
     load_bytes f (Some b) off n = Inr (take n (drop (b * kBlockSize + off) data))"
proof (induction n arbitrary: off)
  case 0
  then show ?case by simp
next
  case (Suc n)
  let ?p = "b * kBlockSize + off"
  have p: "?p < length data" using Suc.prems by simp
  have o: "off < kBlockSize" using Suc.prems by simp
  note blk = holds_block[OF assms p]
  from block_div_mod[OF o, of b] blk
  have pk: "peek f (Some b) off = Inr (data ! ?p)" by (simp add: peek_def)
  have "load_bytes f (Some b) (Suc off) n = Inr (take n (drop (b * kBlockSize + Suc off) data))"
    using Suc.prems by (intro Suc.IH) simp_all
  moreover have "drop ?p data = data ! ?p # drop (Suc ?p) data"
    using p by (simp add: Cons_nth_drop_Suc)
  ultimately show ?case using pk by simp
qed

lemma read_loop_reading:
  assumes h: "file_holds f data"
  shows "reading f r p \<Longrightarrow> p + n \<le> length data \<Longrightarrow>
     \<exists>r'. read_loop f r (length dst + n) dst = Inr (dst @ take n (drop p data), r') \<and>
          reading f r' (p + n) \<and> pos r' = pos r \<and> rfile r' = rfile r"
proof (induction n arbitrary: r p dst rule: less_induct)
  case (less n)
  show ?case
  proof (cases "n = 0")
    case True
    then show ?thesis using less.prems by (subst read_loop.simps) simp
  next
    case False
    then have p: "p < length data" using less.prems by simp
    from eof_reading[OF h less.prems(1) p] obtain r1 where r1: "eof f r = Inr (False, r1)"
      "reading f r1 p" "bufBlock r1 = Some (p div kBlockSize)" "bufCur r1 = p mod kBlockSize"
      "sentinel r1 = kBlockSize" "pos r1 = pos r" "rfile r1 = rfile r"
      by auto
    define m where "m = min (getNumReadableBytes r1) (length dst + n - length dst)"
    have lt: "p mod kBlockSize < kBlockSize" using kBlockSize_pos by simp
    have m: "m = min (kBlockSize - p mod kBlockSize) n"
      using r1 by (simp add: m_def getNumReadableBytes_def)
    then have mpos: "0 < m" "m \<le> n" "p mod kBlockSize + m \<le> kBlockSize" using False lt by auto
    from h have hb: "holds (blocks f) data" by (simp add: file_holds_def)
    have pp: "p div kBlockSize * kBlockSize + p mod kBlockSize = p" by simp
    have ld: "load_bytes f (bufBlock r1) (bufCur r1) m = Inr (take m (drop p data))"
      using load_bytes_holds[OF hb, of "p div kBlockSize" "p mod kBlockSize" m] mpos less.prems(2) r1(3,4)
      by (simp add: pp)
    let ?r2 = "r1\<lparr>bufCur := bufCur r1 + m\<rparr>"
    have r2: "reading f ?r2 (p + m)"
      using r1(2,3,4) mpos(3) by (intro reading_advance) simp_all
    have lm: "length (take m (drop p data)) = m" using mpos less.prems(2) by simp
    from less.IH[of "n - m" ?r2 "p + m" "dst @ take m (drop p data)"] r2 mpos less.prems(2) lm
    obtain r' where r': "read_loop f ?r2 (length dst + n) (dst @ take m (drop p data)) =
        Inr ((dst @ take m (drop p data)) @ take (n - m) (drop (p + m) data), r')"
      "reading f r' (p + m + (n - m))" "pos r' = pos ?r2" "rfile r' = rfile ?r2"
      by auto
    have cat: "take m (drop p data) @ take (n - m) (drop (p + m) data) = take n (drop p data)"
      using mpos(2) by (metis add.commute drop_drop le_add_diff_inverse take_add)
    have "read_loop f r (length dst + n) dst =
        Inr (dst @ take n (drop p data), r')"
      using False r1(1) ld r'(1) m_def cat by (subst read_loop.simps) (simp add: Let_def)
    then show ?thesis using r'(2,3,4) r1(6,7) mpos(2) by simp
  qed
qed

lemma read_reading:
  assumes "file_holds f data" "reading f r p" "p + n \<le> length data"
  shows "\<exists>r'. read f r n = Inr (take n (drop p data), r') \<and> reading f r' (p + n) \<and>
           rfile r' = rfile r"
proof -
  from read_loop_reading[OF assms, of "[]"] obtain r' where
    "read_loop f r n [] = Inr (take n (drop p data), r')" "reading f r' (p + n)" "rfile r' = rfile r"
    by auto
  then show ?thesis by (simp add: read_def)
qed

lemma seek_reading:
  assumes h: "file_holds f data" and r: "last_block r = (file_length f - 1) div kBlockSize + 1"
    and p: "p < length data"
  shows "\<exists>r'. seek f r p = Inr r' \<and> reading f r' p \<and> rfile r' = rfile r"
proof -
  from h have len: "file_length f = length data" and hb: "holds (blocks f) data"
    by (simp_all add: file_holds_def)
  note blk = holds_block[OF hb p]
  have "p div kBlockSize \<le> (length data - 1) div kBlockSize"
    using p by (intro div_le_mono) simp
  then have nl: "p div kBlockSize < last_block r" using r len by simp
  have lt: "p mod kBlockSize < kBlockSize" using kBlockSize_pos by simp
  show ?thesis
    using p len blk(1) nl lt r
    by (simp add: seek_def Let_def reading_def)
qed

section \<open>From the writer to the reader\<close>

lemma write_all_writing:
  "writing w data \<Longrightarrow>
     \<exists>w'. write_all w cs = Inr w' \<and> writing w' (data @ concat cs) \<and>
          file_name (wfile w') = file_name (wfile w)"
proof (induction cs arbitrary: w data)
  case Nil
  then show ?case by simp
next
  case (Cons c cs)
  from write_bytes_writing[OF Cons.prems, of c] obtain w1 where
    w1: "write_bytes w c = Inr w1" "writing w1 (data @ c)" "file_name (wfile w1) = file_name (wfile w)"
    by auto
  from Cons.IH[OF w1(2)] w1(1,3) show ?case by auto
qed

lemma file_holds_refs [simp]: "file_holds (f\<lparr>refs := x\<rparr>) data = file_holds f data"
  by (simp add: file_holds_def)

lemma reading_refs [simp]: "reading (f\<lparr>refs := x\<rparr>) r p = reading f r p"
  by (simp add: reading_def)

lemma lookup_store_update:
  "lookup_store (d\<lparr>store := (store d)[a := x]\<rparr>) b =
     (if b = a \<and> a < length (store d) then x else lookup_store d b)"
  by (simp add: lookup_store_def)

lemma lookup_store_Some_less: "lookup_store d a = Some f \<Longrightarrow> a < length (store d)"
  by (simp add: lookup_store_def split: if_splits)

lemma createOutput_absent:
  "map_of (files d) fname = None \<Longrightarrow>
     createOutput d fname =
       (d\<lparr>files := AList.update fname DummyFile (files d)\<rparr>, Inr (new_RAMFileIndexOutput fname))"
  by (simp add: createOutput_def)

lemma closeOutput_writing:
  assumes "map_of (files d) fname = Some DummyFile" "writing w data" "file_name (wfile w) = fname"
  shows "\<exists>d2 f. closeOutput d w = (d2, Inr ()) \<and>
           files d2 = AList.update fname (FilePtr (length (store d))) (files d) \<and>
           map_of (files d2) = (map_of (files d))(fname \<mapsto> FilePtr (length (store d))) \<and>
           store d2 = store d @ [Some f] \<and> dummy_refs d2 = dummy_refs d \<and>
           file_holds f data \<and> refs f = 1"
  using assms
  by (auto simp add: closeOutput_def commit_def writing_def file_holds_def map_of_update Let_def)

lemma openInput_holds:
  assumes "map_of (files d) fname = Some (FilePtr a)" "lookup_store d a = Some f"
    "file_holds f data" "data \<noteq> []"
  shows "\<exists>d3 r. openInput d fname = (d3, Inr r) \<and> rfile r = a \<and>
           lookup_store d3 a = Some (f\<lparr>refs := refs f + 1\<rparr>) \<and>
           reading f r 0 \<and> files d3 = files d \<and> dummy_refs d3 = dummy_refs d"
proof -
  from assms(3,4) have "file_length f \<noteq> 0" by (simp add: file_holds_def)
  then obtain r where r: "new_RAMFileIndexInput a f = Inr r"
    by (simp add: new_RAMFileIndexInput_def)
  from reading_new[OF r] r assms(1,2) lookup_store_Some_less[OF assms(2)]
  show ?thesis by (simp add: openInput_def lookup_store_update)
qed

lemma commit_and_open:
  assumes "map_of (files d1) fname = Some DummyFile" "writing w data"
    "file_name (wfile w) = fname" "data \<noteq> []"
  shows "\<exists>d2 d3 r f. closeOutput d1 w = (d2, Inr ()) \<and> openInput d2 fname = (d3, Inr r) \<and>
           lookup_store d3 (rfile r) = Some f \<and> file_holds f data \<and> reading f r 0 \<and> refs f = 2"
proof -
  from closeOutput_writing[OF assms(1-3)] obtain d2 f where
    c: "closeOutput d1 w = (d2, Inr ())"
      "map_of (files d2) = (map_of (files d1))(fname \<mapsto> FilePtr (length (store d1)))"
      "store d2 = store d1 @ [Some f]" "file_holds f data" "refs f = 1"
    by auto
  have t: "map_of (files d2) fname = Some (FilePtr (length (store d1)))" using c(2) by simp
  have l: "lookup_store d2 (length (store d1)) = Some f" using c(3) by (simp add: lookup_store_def)
  from openInput_holds[OF t l c(4) assms(4)] obtain d3 r where
    o: "openInput d2 fname = (d3, Inr r)" "rfile r = length (store d1)"
      "lookup_store d3 (length (store d1)) = Some (f\<lparr>refs := refs f + 1\<rparr>)" "reading f r 0"
    by auto
  show ?thesis
    using c(1,4,5) o by (intro exI[of _ d2] exI[of _ d3] exI[of _ r] exI[of _ "f\<lparr>refs := refs f + 1\<rparr>"]) simp
qed

section \<open>Reference counts\<close>

lemma unrefReader_counts:
  assumes "lookup_store d a = Some f"
  shows "unrefReader d a =
     (d\<lparr>store := (store d)[a := (if refs f = 1 then None else Some (f\<lparr>refs := refs f - 1\<rparr>))]\<rparr>, Inr ())"
  using assms by (simp add: unrefReader_def Let_def)

lemma closeInputs_counts:
  assumes "\<forall>r\<in>set rs. rfile r = a"
  shows "lookup_store d a = Some f \<Longrightarrow> int (length rs) < refs f \<Longrightarrow>
     \<exists>d'. closeInputs d rs = (d', Inr ()) \<and>
          lookup_store d' a = Some (f\<lparr>refs := refs f - int (length rs)\<rparr>) \<and>
          files d' = files d"
  using assms
proof (induction rs arbitrary: d f)
  case Nil
  then show ?case by simp
next
  case (Cons r rs)
  let ?f1 = "f\<lparr>refs := refs f - 1\<rparr>"
  let ?d1 = "d\<lparr>store := (store d)[a := Some ?f1]\<rparr>"
  have ra: "rfile r = a" using Cons.prems(3) by simp
  have ne: "refs f \<noteq> 1" using Cons.prems(2) by simp
  have u: "closeInput d r = (?d1, Inr ())"
    using unrefReader_counts[OF Cons.prems(1)] ne ra by (simp add: closeInput_def)
  have l: "lookup_store ?d1 a = Some ?f1"
    using lookup_store_Some_less[OF Cons.prems(1)] by (simp add: lookup_store_update)
  have c: "int (length rs) < refs ?f1" using Cons.prems(2) by simp
  from Cons.IH[OF l c] Cons.prems(3) obtain d' where
    "closeInputs ?d1 rs = (d', Inr ())"
    "lookup_store d' a = Some (?f1\<lparr>refs := refs ?f1 - int (length rs)\<rparr>)" "files d' = files ?d1"
    by auto
  then show ?case using u by (simp add: algebra_simps)
qed

lemma closeInputs_last:
  assumes "\<forall>r\<in>set rs. rfile r = a"
  shows "lookup_store d a = Some f \<Longrightarrow> refs f = int (length rs) \<Longrightarrow> rs \<noteq> [] \<Longrightarrow>
     \<exists>d'. closeInputs d rs = (d', Inr ()) \<and> lookup_store d' a = None \<and> files d' = files d"
  using assms
proof (induction rs arbitrary: d f)
  case Nil
  then show ?case by simp
next
  case (Cons r rs)
  have ra: "rfile r = a" using Cons.prems(4) by simp
  note lt = lookup_store_Some_less[OF Cons.prems(1)]
  show ?case
  proof (cases "rs = []")
    case True
    then have "refs f = 1" using Cons.prems(2) by simp
    then show ?thesis
      using unrefReader_counts[OF Cons.prems(1)] ra True lt
      by (simp add: closeInput_def lookup_store_update)
  next
    case False
    let ?f1 = "f\<lparr>refs := refs f - 1\<rparr>"
    let ?d1 = "d\<lparr>store := (store d)[a := Some ?f1]\<rparr>"
    have ne: "refs f \<noteq> 1" using Cons.prems(2) False by simp
    have u: "closeInput d r = (?d1, Inr ())"
      using unrefReader_counts[OF Cons.prems(1)] ne ra by (simp add: closeInput_def)
    have l: "lookup_store ?d1 a = Some ?f1" using lt by (simp add: lookup_store_update)
    have c: "refs ?f1 = int (length rs)" using Cons.prems(2) by simp
    from Cons.IH[OF l c False] Cons.prems(4) obtain d' where
      "closeInputs ?d1 rs = (d', Inr ())" "lookup_store d' a = None" "files d' = files ?d1"
      by auto
    then show ?thesis using u by simp
  qed
qed

lemma deleteFile_counts:
  assumes "map_of (files d) fname = Some (FilePtr a)" "lookup_store d a = Some f"
  shows "deleteFile d fname =
     (d\<lparr>files := AList.delete fname (files d),
        store := (store d)[a := (if refs f = 1 then None else Some (f\<lparr>refs := refs f - 1\<rparr>))]\<rparr>,
      Inr ())"
  using assms by (simp add: deleteFile_def Let_def)

section \<open>Decoding\<close>

lemma varint32_of_count: "varint32_of bs ret k = Some (v, k') \<Longrightarrow> k < k'"
  by (induction bs ret k rule: varint32_of.induct) (auto simp add: Let_def split: if_splits)

lemma varint64_of_count: "varint64_of bs ret k = Some (v, k') \<Longrightarrow> k < k'"
  by (induction bs ret k rule: varint64_of.induct) (auto simp add: Let_def split: if_splits)

lemma readVarint32_loop_reading:
  assumes h: "file_holds f data"
  shows "reading f r p \<Longrightarrow> p \<le> length data \<Longrightarrow> varint32_of (drop p data) ret k = Some (v, k') \<Longrightarrow>
     \<exists>r'. readVarint32_loop f r ret k = Inr (v, r') \<and> reading f r' (p + (k' - k)) \<and>
          p + (k' - k) \<le> length data \<and> rfile r' = rfile r"
proof (induction "drop p data" ret k arbitrary: p r rule: varint32_of.induct)
  case (1 ret k)
  then show ?case by simp
next
  case (2 byte bs ret k)
  from "2.hyps"(2) have p: "p < length data"
    by (metis drop_eq_Nil list.distinct(1) not_le_imp_less)
  have byte: "data ! p = byte" and bs: "bs = drop (Suc p) data"
    using "2.hyps"(2) p by (metis Cons_nth_drop_Suc list.inject)+
  from "2.prems"(3) "2.hyps"(2)[symmetric] have k: "k < kMaxVarintLength32"
    by (simp split: if_splits)
  from eof_reading[OF h "2.prems"(1) p] obtain r1 where
    r1: "eof f r = Inr (False, r1)" "reading f r1 p" by auto
  from readByte_reading[OF h r1(2) p] byte obtain r2 where
    r2: "readByte f r1 = Inr (byte, r2)" "reading f r2 (Suc p)" "rfile r2 = rfile r1"
    by auto
  have rf: "rfile r1 = rfile r" using eof_reading[OF h "2.prems"(1) p] r1(1) by auto
  define ret' where "ret' = ret OR push_bit (7 * k) (ucast byte AND 0x7f)"
  show ?case
  proof (cases "byte AND 128 = 0")
    case True
    with "2.prems"(3) "2.hyps"(2)[symmetric] k have "v = ret'" "k' = Suc k"
      by (simp_all add: ret'_def)
    then show ?thesis using True k r1(1) r2 rf p
      by (subst readVarint32_loop.simps) (simp add: ret'_def)
  next
    case False
    with "2.prems"(3) "2.hyps"(2)[symmetric] k
    have rec: "varint32_of (drop (Suc p) data) ret' (Suc k) = Some (v, k')"
      by (simp add: ret'_def bs)
    have sp: "Suc p \<le> length data" using p by simp
    from "2.hyps"(1)[OF k ret'_def False bs r2(2) sp rec] obtain r' where
      r': "readVarint32_loop f r2 ret' (Suc k) = Inr (v, r')"
        "reading f r' (Suc p + (k' - Suc k))" "Suc p + (k' - Suc k) \<le> length data"
        "rfile r' = rfile r2"
      by auto
    have kk: "Suc k \<le> k'" using varint32_of_count[OF rec] by simp
    have "readVarint32_loop f r ret k = Inr (v, r')"
      using False k r1(1) r2(1) r'(1) by (subst readVarint32_loop.simps) (simp add: ret'_def)
    moreover have "Suc p + (k' - Suc k) = p + (k' - k)" using kk by simp
    ultimately show ?thesis using r'(2,3,4) r2(3) rf by (simp del: add_Suc)
  qed
qed

lemma readVarint64_loop_reading:
  assumes h: "file_holds f data"
  shows "reading f r p \<Longrightarrow> p \<le> length data \<Longrightarrow> varint64_of (drop p data) ret k = Some (v, k') \<Longrightarrow>
     \<exists>r'. readVarint64_loop f r ret k = Inr (v, r') \<and> reading f r' (p + (k' - k)) \<and>
          p + (k' - k) \<le> length data \<and> rfile r' = rfile r"
proof (induction "drop p data" ret k arbitrary: p r rule: varint64_of.induct)
  case (1 ret k)
  then show ?case by simp
next
  case (2 byte bs ret k)
  from "2.hyps"(2) have p: "p < length data"
    by (metis drop_eq_Nil list.distinct(1) not_le_imp_less)
  have byte: "data ! p = byte" and bs: "bs = drop (Suc p) data"
    using "2.hyps"(2) p by (metis Cons_nth_drop_Suc list.inject)+
  from "2.prems"(3) "2.hyps"(2)[symmetric] have k: "k < kMaxVarintLength64"
    by (simp split: if_splits)
  from eof_reading[OF h "2.prems"(1) p] obtain r1 where
    r1: "eof f r = Inr (False, r1)" "reading f r1 p" by auto
  from readByte_reading[OF h r1(2) p] byte obtain r2 where
    r2: "readByte f r1 = Inr (byte, r2)" "reading f r2 (Suc p)" "rfile r2 = rfile r1"
    by auto
  have rf: "rfile r1 = rfile r" using eof_reading[OF h "2.prems"(1) p] r1(1) by auto
  define ret' where "ret' = ret OR push_bit (7 * k) (ucast byte AND 0x7f)"
  show ?case
  proof (cases "byte AND 128 = 0")
    case True
    with "2.prems"(3) "2.hyps"(2)[symmetric] k have "v = ret'" "k' = Suc k"
      by (simp_all add: ret'_def)
    then show ?thesis using True k r1(1) r2 rf p
      by (subst readVarint64_loop.simps) (simp add: ret'_def)
  next
    case False
    with "2.prems"(3) "2.hyps"(2)[symmetric] k
    have rec: "varint64_of (drop (Suc p) data) ret' (Suc k) = Some (v, k')"
      by (simp add: ret'_def bs)
    have sp: "Suc p \<le> length data" using p by simp
    from "2.hyps"(1)[OF k ret'_def False bs r2(2) sp rec] obtain r' where
      r': "readVarint64_loop f r2 ret' (Suc k) = Inr (v, r')"
        "reading f r' (Suc p + (k' - Suc k))" "Suc p + (k' - Suc k) \<le> length data"
        "rfile r' = rfile r2"
      by auto
    have kk: "Suc k \<le> k'" using varint64_of_count[OF rec] by simp
    have "readVarint64_loop f r ret k = Inr (v, r')"
      using False k r1(1) r2(1) r'(1) by (subst readVarint64_loop.simps) (simp add: ret'_def)
    moreover have "Suc p + (k' - Suc k) = p + (k' - k)" using kk by simp
    ultimately show ?thesis using r'(2,3,4) r2(3) rf by (simp del: add_Suc)
  qed
qed

lemma readString_loop_reading:
  assumes h: "file_holds f data"
  shows "reading f r p \<Longrightarrow> p + n \<le> length data \<Longrightarrow>
     \<exists>r'. readString_loop f n r buff = Inr (buff @ take n (drop p data), r') \<and>
          reading f r' (p + n) \<and> rfile r' = rfile r"
proof (induction n arbitrary: r p buff)
  case 0
  then show ?case by simp
next
  case (Suc n)
  then have p: "p < length data" by simp
  from readByte_reading[OF h Suc.prems(1) p] obtain r1 where
    r1: "readByte f r = Inr (data ! p, r1)" "reading f r1 (Suc p)" "rfile r1 = rfile r"
    by auto
  from Suc.IH[OF r1(2), of "buff @ [data ! p]"] Suc.prems(2) obtain r' where
    r': "readString_loop f n r1 (buff @ [data ! p]) =
           Inr ((buff @ [data ! p]) @ take n (drop (Suc p) data), r')"
      "reading f r' (Suc p + n)" "rfile r' = rfile r1"
    by auto
  have "drop p data = data ! p # drop (Suc p) data" using p by (simp add: Cons_nth_drop_Suc)
  then show ?case using r1(1,3) r' by simp
qed

lemma readVarint32_reading:
  assumes "file_holds f data" "reading f r p" "p \<le> length data"
    "varint32_of (drop p data) 0 0 = Some (v, n)"
  shows "\<exists>r'. readVarint32 f r = Inr (v, r') \<and> reading f r' (p + n) \<and>
           p + n \<le> length data \<and> rfile r' = rfile r"
  using readVarint32_loop_reading[OF assms] by (simp add: readVarint32_def)

lemma readVarint64_reading:
  assumes "file_holds f data" "reading f r p" "p \<le> length data"
    "varint64_of (drop p data) 0 0 = Some (v, n)"
  shows "\<exists>r'. readVarint64 f r = Inr (v, r') \<and> reading f r' (p + n) \<and>
           p + n \<le> length data \<and> rfile r' = rfile r"
  using readVarint64_loop_reading[OF assms] by (simp add: readVarint64_def)

lemma readString_reading:
  assumes h: "file_holds f data" and r: "reading f r p" and p: "p \<le> length data"
    and v: "varint32_of (drop p data) 0 0 = Some (v, n)"
    and s: "p + n + unat v \<le> length data"
  shows "\<exists>r'. readString f r = Inr (take (unat v) (drop (p + n) data), r') \<and>
           reading f r' (p + n + unat v) \<and> rfile r' = rfile r"
proof -
  from readVarint32_reading[OF h r p v] obtain r1 where
    r1: "readVarint32 f r = Inr (v, r1)" "reading f r1 (p + n)" "rfile r1 = rfile r"
    by auto
  from readString_loop_reading[OF h r1(2) s, of "[]"] r1(1,3)
  show ?thesis by (auto simp add: readString_def)
qed

lemma readInt32_reading:
  assumes "file_holds f data" "reading f r p" "p + 4 \<le> length data"
  shows "\<exists>r'. readInt32 f r = Inr (readInt32_value (take 4 (drop p data)), r') \<and>
           reading f r' (p + 4) \<and> rfile r' = rfile r"
  using read_reading[OF assms] assms(3) by (auto simp add: readInt32_def)

lemma readInt64_reading:
  assumes "file_holds f data" "reading f r p" "p + 8 \<le> length data"
  shows "\<exists>r'. readInt64 f r = Inr (readInt64_value (take 8 (drop p data)), r') \<and>
           reading f r' (p + 8) \<and> rfile r' = rfile r"
  using read_reading[OF assms] assms(3) by (auto simp add: readInt64_def)

lemma eof_inside_block:
  assumes "reading f r p" "p mod kBlockSize \<noteq> 0"
  shows "eof f r = Inr (False, r)"
proof -
  from assms obtain b where b: "bufBlock r = Some b" "sentinel r = kBlockSize"
    "bufCur r \<le> kBlockSize" "p = b * kBlockSize + bufCur r"
    by (cases "bufBlock r") (auto simp add: reading_def)
  have "bufCur r \<noteq> kBlockSize" using b(4) assms(2) by auto
  with b(2,3) show ?thesis by (simp add: eof_def hasPendingData_def getNumReadableBytes_def)
qed

lemma writeInt64_writing:
  "writing w data \<Longrightarrow>
     \<exists>w'. writeInt64 w num = Inr w' \<and> writing w' (data @ writeInt64_buf num) \<and>
          file_name (wfile w') = file_name (wfile w)"
  unfolding writeInt64_def by (rule write_bytes_writing)

lemma writeInt32_writing:
  "writing w data \<Longrightarrow>
     \<exists>w'. writeInt32 w num = Inr w' \<and> writing w' (data @ writeInt32_buf num) \<and>
          file_name (wfile w') = file_name (wfile w)"
  unfolding writeInt32_def by (rule write_bytes_writing)

lemma writeVarint32_writing:
  "writing w data \<Longrightarrow>
     \<exists>w'. writeVarint32 w num = Inr w' \<and> writing w' (data @ writeVarint32_buf num) \<and>
          file_name (wfile w') = file_name (wfile w)"
  unfolding writeVarint32_def by (rule write_bytes_writing)

lemma writeVarint64_writing:
  "writing w data \<Longrightarrow>
     \<exists>w'. writeVarint64 w num = Inr w' \<and> writing w' (data @ writeVarint64_buf num) \<and>
          file_name (wfile w') = file_name (wfile w)"
  unfolding writeVarint64_def by (rule write_bytes_writing)

lemma writeString_writing:
  assumes "writing w data"
  shows "\<exists>w'. writeString w str = Inr w' \<and>
          writing w' (data @ writeVarint32_buf (of_nat (length str)) @ str) \<and>
          file_name (wfile w') = file_name (wfile w)"
proof -
  from writeVarint32_writing[OF assms] obtain w1 where
    w1: "writeVarint32 w (of_nat (length str)) = Inr w1"
      "writing w1 (data @ writeVarint32_buf (of_nat (length str)))"
      "file_name (wfile w1) = file_name (wfile w)"
    by blast
  from write_bytes_writing[OF w1(2), of str] w1(1,3) show ?thesis
    by (auto simp add: writeString_def)
qed

section \<open>The example scenario\<close>

lemma new_writer_name: "file_name (wfile (new_RAMFileIndexOutput fname)) = fname"
  by (simp add: new_RAMFileIndexOutput_def new_RAMFile_def)

lemma createOutput_new:
  "createOutput new_RAMDirectory fname =
     (new_RAMDirectory\<lparr>files := [(fname, DummyFile)]\<rparr>, Inr (new_RAMFileIndexOutput fname))"
  by (simp add: createOutput_def new_RAMDirectory_def)

lemma hello_bytes: "hello = [104, 101, 108, 108, 111]"
  by (simp add: hello_def)

lemma example_data_eq:
  "(([] @ writeInt64_buf 0xFFFFFFFFFFFFFFFF) @ writeVarint32_buf (of_nat (length hello)) @ hello)
         @ writeVarint32_buf 300 = example_data"
  by (simp add: writeInt64_buf_def writeVarint32_buf_def hello_bytes example_data_def)

lemma example_written:
  "\<exists>w1 w2 w3. writeInt64 (new_RAMFileIndexOutput ''f'') 0xFFFFFFFFFFFFFFFF = Inr w1 \<and>
     writeString w1 hello = Inr w2 \<and> writeVarint32 w2 300 = Inr w3 \<and>
     writing w3 example_data \<and> file_name (wfile w3) = ''f''"
proof -
  from writeInt64_writing[OF writing_new, of "''f''" "0xFFFFFFFFFFFFFFFF"] obtain w1 where
    w1: "writeInt64 (new_RAMFileIndexOutput ''f'') 0xFFFFFFFFFFFFFFFF = Inr w1"
      "writing w1 ([] @ writeInt64_buf 0xFFFFFFFFFFFFFFFF)" "file_name (wfile w1) = ''f''"
    unfolding new_writer_name by blast
  from writeString_writing[OF w1(2), of hello] obtain w2 where
    w2: "writeString w1 hello = Inr w2"
      "writing w2 (([] @ writeInt64_buf 0xFFFFFFFFFFFFFFFF) @ writeVarint32_buf (of_nat (length hello)) @ hello)"
      "file_name (wfile w2) = ''f''"
    unfolding w1(3) by blast
  from writeVarint32_writing[OF w2(2), of 300] obtain w3 where
    w3: "writeVarint32 w2 300 = Inr w3"
      "writing w3 ((([] @ writeInt64_buf 0xFFFFFFFFFFFFFFFF) @ writeVarint32_buf (of_nat (length hello)) @ hello)
         @ writeVarint32_buf 300)"
      "file_name (wfile w3) = ''f''"
    unfolding w2(3) by blast
  have wd: "writing w3 example_data" using w3(2) unfolding example_data_eq .
  show ?thesis using w1(1) w2(1) w3(1,3) wd by blast
qed

lemma example_opened:
  assumes "writing w3 example_data" "file_name (wfile w3) = ''f''"
  shows "\<exists>d2 d3 input f. closeOutput (new_RAMDirectory\<lparr>files := [(''f'', DummyFile)]\<rparr>) w3 = (d2, Inr ()) \<and>
     openInput d2 ''f'' = (d3, Inr input) \<and> lookup_store d3 (rfile input) = Some f \<and>
     file_holds f example_data \<and> reading f input 0"
proof -
  have t: "map_of (files (new_RAMDirectory\<lparr>files := [(''f'', DummyFile)]\<rparr>)) ''f'' = Some DummyFile"
    by simp
  have ne: "example_data \<noteq> []" by (simp add: example_data_def)
  from commit_and_open[OF t assms ne] show ?thesis by blast
qed

lemma example_length: "length example_data = 16"
  by (simp add: example_data_def)

lemma example_read:
  assumes h: "file_holds f example_data" and r: "reading f input 0"
  shows "\<exists>r1 r2 r3. readInt64 f input = Inr (0xFFFFFFFFFFFFFFFF, r1) \<and>
     readString f r1 = Inr (hello, r2) \<and> readVarint32 f r2 = Inr (300, r3) \<and>
     eof f r3 = Inr (False, r3)"
proof -
  have l8: "0 + 8 \<le> length example_data" by (simp add: example_length)
  from readInt64_reading[OF h r l8] obtain r1 where
    r1: "readInt64 f input = Inr (readInt64_value (take 8 (drop 0 example_data)), r1)"
      "reading f r1 (0 + 8)"
    by blast
  have v1: "readInt64_value (take 8 (drop 0 example_data)) = 0xFFFFFFFFFFFFFFFF"
    by (simp add: example_data_def readInt64_value_def)
  have vs: "varint32_of (drop (0 + 8) example_data) 0 0 = Some (5, 1)"
    by (simp add: example_data_def kMaxVarintLength32_def)
  have s: "0 + 8 + 1 + unat (5 :: 32 word) \<le> length example_data"
    by (simp add: example_length)
  from readString_reading[OF h r1(2) l8 vs s] obtain r2 where
    r2: "readString f r1 = Inr (take (unat (5 :: 32 word)) (drop (0 + 8 + 1) example_data), r2)"
      "reading f r2 (0 + 8 + 1 + unat (5 :: 32 word))"
    by blast
  have v2: "take (unat (5 :: 32 word)) (drop (0 + 8 + 1) example_data) = hello"
    by (simp add: example_data_def hello_bytes)
  have vv: "varint32_of (drop (0 + 8 + 1 + unat (5 :: 32 word)) example_data) 0 0 = Some (300, 2)"
    by (simp add: example_data_def kMaxVarintLength32_def)
  from readVarint32_reading[OF h r2(2) s vv] obtain r3 where
    r3: "readVarint32 f r2 = Inr (300, r3)" "reading f r3 (0 + 8 + 1 + unat (5 :: 32 word) + 2)"
    by blast
  have "(0 + 8 + 1 + unat (5 :: 32 word) + 2) mod kBlockSize \<noteq> 0"
    by (simp add: kBlockSize_def)
  from eof_inside_block[OF r3(2) this] have e: "eof f r3 = Inr (False, r3)" .
  show ?thesis using r1(1) r2(1) r3(1) e unfolding v1 v2 by blast
qed

section \<open>deleteSegment\<close>

lemma deleteSegment_loop_committed:
  assumes "(first, FilePtr a) \<in> set es" "length segment \<le> length first"
    "segment = take (length segment) first"
  shows "\<exists>d' e. deleteSegment_loop es segment d = (d', Inl e)"
  using assms(1)
proof (induction es arbitrary: d)
  case Nil
  then show ?case by simp
next
  case (Cons x es)
  obtain n q where x: "x = (n, q)" by (cases x)
  show ?case
  proof (cases "(first, FilePtr a) = x")
    case True
    then show ?thesis using assms(2,3) x by auto
  next
    case False
    with Cons.prems have "(first, FilePtr a) \<in> set es" by simp
    from Cons.IH[OF this] show ?thesis using x by (auto simp add: Let_def)
  qed
qed

section \<open>The codecs\<close>

lemma readInt32_value_writeInt32_buf: "readInt32_value (writeInt32_buf v) = v"
  unfolding readInt32_value_def writeInt32_buf_def
proof (rule bit_word_eqI)
  fix n assume "n < LENGTH(32)"
  then have n: "n < 32" by simp
  let ?b = "[ucast v :: byte, ucast (drop_bit 8 v), ucast (drop_bit 16 v), ucast (drop_bit 24 v)]"
  consider "n < 8" | "8 \<le> n" "n < 16" | "16 \<le> n" "n < 24" | "24 \<le> n" "n < 32"
    using n by linarith
  then show "bit (ucast (?b ! 0) OR push_bit 8 (ucast (?b ! 1)) OR push_bit 16 (ucast (?b ! 2)) OR
      push_bit 24 (ucast (?b ! 3)) :: 32 word) n = bit v n"
    by cases (auto simp add: bit_simps)
qed

lemma readInt64_value_writeInt64_buf: "readInt64_value (writeInt64_buf v) = v"
  unfolding readInt64_value_def writeInt64_buf_def
proof (rule bit_word_eqI)
  fix n assume "n < LENGTH(64)"
  then have n: "n < 64" by simp
  let ?b = "[ucast v :: byte, ucast (drop_bit 8 v), ucast (drop_bit 16 v), ucast (drop_bit 24 v),
      ucast (drop_bit 32 v), ucast (drop_bit 40 v), ucast (drop_bit 48 v), ucast (drop_bit 56 v)]"
  consider "n < 8" | "8 \<le> n" "n < 16" | "16 \<le> n" "n < 24" | "24 \<le> n" "n < 32"
    | "32 \<le> n" "n < 40" | "40 \<le> n" "n < 48" | "48 \<le> n" "n < 56" | "56 \<le> n" "n < 64"
    using n by linarith
  then show "bit (ucast (?b ! 0) OR push_bit 8 (ucast (?b ! 1)) OR push_bit 16 (ucast (?b ! 2)) OR
      push_bit 24 (ucast (?b ! 3)) OR push_bit 32 (ucast (?b ! 4)) OR push_bit 40 (ucast (?b ! 5)) OR
      push_bit 48 (ucast (?b ! 6)) OR push_bit 56 (ucast (?b ! 7)) :: 64 word) n = bit v n"
    by cases (auto simp add: bit_simps)
qed

lemma bit_128: "bit (128 :: 'a::len word) n \<longleftrightarrow> n = 7 \<and> n < LENGTH('a)"
proof -
  have "(128 :: 'a word) = 2 ^ 7" by simp
  then show ?thesis by (auto simp only: bit_exp_iff possible_bit_word)
qed

lemma bit_7f: "bit (0x7f :: 'a::len word) n \<longleftrightarrow> n < 7 \<and> n < LENGTH('a)"
proof -
  have "(0x7f :: 'a word) = mask 7" by (simp add: mask_eq_exp_minus_1)
  then show ?thesis by (auto simp only: bit_mask_iff possible_bit_word)
qed

lemma bit_128_int: "bit (128 :: int) n \<longleftrightarrow> n = 7"
proof -
  have e: "(2 ^ 7 :: int) = 128" by simp
  have "bit (2 ^ 7 :: int) n \<longleftrightarrow> n = 7" by (simp only: bit_exp_iff) auto
  then show ?thesis unfolding e .
qed

lemma bit_7f_int: "bit (127 :: int) n \<longleftrightarrow> n < 7"
proof -
  have e: "(mask 7 :: int) = 127" by (simp add: mask_eq_exp_minus_1)
  have "bit (mask 7 :: int) n \<longleftrightarrow> n < 7" by (simp add: bit_mask_iff del: mask_numeral)
  then show ?thesis unfolding e .
qed

lemmas bit_consts = bit_128 bit_7f bit_128_int bit_7f_int

lemma small_word_bit:
  fixes x :: "'a::len word"
  assumes "unat x < 2 ^ m" "m \<le> n"
  shows "\<not> bit x n"
proof -
  have "(2 :: nat) ^ m \<le> 2 ^ n" using assms(2) by simp
  then have "unat x < 2 ^ n" using assms(1) by linarith
  then have "unat x div 2 ^ n = 0" by simp
  then have "\<not> bit (unat x) n" by (simp add: bit_iff_odd)
  then show ?thesis by (simp add: bit_unsigned_iff)
qed

lemma cont_set:
  "7 < LENGTH('a) \<Longrightarrow> (ucast (x OR 128 :: 'a::len word) :: byte) AND 128 \<noteq> 0"
proof
  assume a: "7 < LENGTH('a)" and "(ucast (x OR 128 :: 'a word) :: byte) AND 128 = 0"
  then have "\<not> bit ((ucast (x OR 128 :: 'a word) :: byte) AND 128) 7" by simp
  then show False using a by (simp add: bit_simps bit_consts)
qed

lemma cont_clear:
  fixes x :: "'a::len word"
  assumes "unat x < 128"
  shows "(ucast x :: byte) AND 128 = 0"
proof (rule bit_word_eqI)
  fix n assume "n < LENGTH(8)"
  have "\<not> bit x 7" using small_word_bit[of x 7 7] assms by simp
  then show "bit ((ucast x :: byte) AND 128) n = bit (0 :: byte) n"
    by (auto simp add: bit_simps bit_consts)
qed

lemma low7:
  "(ucast (ucast (x :: 'a::len word) :: byte) :: 'a word) AND 0x7f = x AND 0x7f"
  by (rule bit_word_eqI) (auto simp add: bit_simps bit_consts)

lemma low7_or:
  "(ucast (ucast (x OR 128 :: 'a::len word) :: byte) :: 'a word) AND 0x7f = x AND 0x7f"
  by (rule bit_word_eqI) (auto simp add: bit_simps bit_consts)

lemma low7_small:
  fixes x :: "'a::len word"
  assumes "unat x < 128"
  shows "(ucast (ucast x :: byte) :: 'a word) AND 0x7f = x"
proof (rule bit_word_eqI)
  fix n assume "n < LENGTH('a)"
  show "bit ((ucast (ucast x :: byte) :: 'a word) AND 0x7f) n = bit x n"
  proof (cases "n < 7")
    case True
    then show ?thesis using \<open>n < LENGTH('a)\<close> by (auto simp add: bit_simps bit_consts)
  next
    case False
    then have "\<not> bit x n" using small_word_bit[of x 7 n] assms by simp
    then show ?thesis using False by (auto simp add: bit_simps bit_consts)
  qed
qed

lemma split7:
  "(ret OR push_bit k (x AND 0x7f)) OR push_bit (7 + k) (drop_bit 7 x) = ret OR push_bit k (x :: 'a::len word)"
proof (rule bit_word_eqI)
  fix n assume n: "n < LENGTH('a)"
  show "bit ((ret OR push_bit k (x AND 0x7f)) OR push_bit (7 + k) (drop_bit 7 x)) n = bit (ret OR push_bit k x) n"
  proof (cases "n < 7 + k")
    case True
    then show ?thesis using n by (auto simp add: bit_simps bit_consts)
  next
    case False
    then have "7 + (n - (7 + k)) = n - k" by simp
    then show ?thesis using n False by (auto simp add: bit_simps bit_consts)
  qed
qed

lemma varint64_of_le: "varint64_of bs ret k = Some (v, k') \<Longrightarrow> k' \<le> kMaxVarintLength64"
  by (induction bs ret k rule: varint64_of.induct) (auto simp add: Let_def split: if_splits)

lemma varint32_of_le: "varint32_of bs ret k = Some (v, k') \<Longrightarrow> k' \<le> kMaxVarintLength32"
  by (induction bs ret k rule: varint32_of.induct) (auto simp add: Let_def split: if_splits)

lemma varint64_of_writeVarint64_buf_gen:
  "unat n < 2 ^ (64 - 7 * k) \<Longrightarrow> k \<le> 9 \<Longrightarrow>
     varint64_of (writeVarint64_buf n @ rest) ret k =
       Some (ret OR push_bit (7 * k) n, k + length (writeVarint64_buf n))"
proof (induction n arbitrary: ret k rule: writeVarint64_buf.induct)
  case (1 num)
  have klt: "k < kMaxVarintLength64" using "1.prems"(2) by (simp add: kMaxVarintLength64_def)
  show ?case
  proof (cases "128 \<le> num")
    case True
    then have ge: "2 ^ 7 \<le> unat num" by (simp add: word_le_nat_alt)
    with "1.prems"(1) have "(2 :: nat) ^ 7 < 2 ^ (64 - 7 * k)" by linarith
    then have "7 < 64 - 7 * k" by (simp only: power_strict_increasing_iff rel_simps)
    then have k8: "Suc k \<le> 9" by simp
    have "unat (drop_bit 7 num) = unat num div 2 ^ 7" by (simp add: drop_bit_eq_div unat_div)
    also have "\<dots> < 2 ^ (64 - 7 * Suc k)"
    proof -
      have "64 - 7 * k = (64 - 7 * Suc k) + 7" using \<open>7 < 64 - 7 * k\<close> by simp
      then have "(2 :: nat) ^ (64 - 7 * k) = 2 ^ (64 - 7 * Suc k) * 2 ^ 7"
        by (simp only: power_add)
      with "1.prems"(1) show ?thesis by (simp add: less_mult_imp_div_less)
    qed
    finally have small: "unat (drop_bit 7 num) < 2 ^ (64 - 7 * Suc k)" .
    let ?ret' = "ret OR push_bit (7 * k) (num AND 0x7f)"
    from "1.IH"[OF True small k8, of ?ret']
    have ih: "varint64_of (writeVarint64_buf (drop_bit 7 num) @ rest) ?ret' (Suc k) =
        Some (?ret' OR push_bit (7 * Suc k) (drop_bit 7 num),
              Suc k + length (writeVarint64_buf (drop_bit 7 num)))" .
    have sp: "?ret' OR push_bit (7 * Suc k) (drop_bit 7 num) = ret OR push_bit (7 * k) num"
    proof -
      have "7 * Suc k = 7 + 7 * k" by simp
      then show ?thesis using split7[of ret "7 * k" num] by (simp only:)
    qed
    have cs: "(ucast (num OR 128) :: byte) AND 128 \<noteq> 0" by (rule cont_set) simp
    have eq: "writeVarint64_buf num = ucast (num OR 128) # writeVarint64_buf (drop_bit 7 num)"
      using True by (subst writeVarint64_buf.simps) simp
    show ?thesis
      using klt cs ih sp by (simp add: eq low7_or Let_def)
  next
    case False
    then have lt: "unat num < 128" by (simp add: word_le_nat_alt not_le)
    have eq: "writeVarint64_buf num = [ucast num]"
      using False by (subst writeVarint64_buf.simps) simp
    show ?thesis
      using klt cont_clear[OF lt] low7_small[OF lt] by (simp add: eq Let_def)
  qed
qed

lemma varint64_of_writeVarint64_buf:
  "varint64_of (writeVarint64_buf v @ rest) 0 0 = Some (v, length (writeVarint64_buf v))"
proof -
  have "unat v < 2 ^ (64 - 7 * 0)" using unsigned_less[of v] by simp
  from varint64_of_writeVarint64_buf_gen[OF this, of rest 0] show ?thesis by simp
qed

lemma length_writeVarint64_buf: "length (writeVarint64_buf v) \<le> 10"
  using varint64_of_le[OF varint64_of_writeVarint64_buf[of v "[]"]]
  by (simp add: kMaxVarintLength64_def)

lemma length_leb128: "length (leb128 m x) = Suc m"
  by (induction m arbitrary: x) simp_all

lemma varint32_of_leb128:
  "unat x < 2 ^ (7 * Suc m) \<Longrightarrow> k + m < 5 \<Longrightarrow>
     varint32_of (leb128 m x @ rest) ret k = Some (ret OR push_bit (7 * k) x, k + Suc m)"
proof (induction m arbitrary: x ret k)
  case 0
  then have lt: "unat x < 128" by simp
  show ?case
    using 0(2) cont_clear[OF lt] low7_small[OF lt]
    by (simp add: Let_def kMaxVarintLength32_def)
next
  case (Suc m)
  have "unat (drop_bit 7 x) = unat x div 2 ^ 7" by (simp add: drop_bit_eq_div unat_div)
  also have "\<dots> < 2 ^ (7 * Suc m)"
  proof -
    have "7 * Suc (Suc m) = 7 * Suc m + 7" by simp
    then have "(2 :: nat) ^ (7 * Suc (Suc m)) = 2 ^ (7 * Suc m) * 2 ^ 7" by (simp only: power_add)
    with Suc.prems(1) show ?thesis by (simp add: less_mult_imp_div_less)
  qed
  finally have small: "unat (drop_bit 7 x) < 2 ^ (7 * Suc m)" .
  let ?ret' = "ret OR push_bit (7 * k) (x AND 0x7f)"
  have k': "Suc k + m < 5" using Suc.prems(2) by simp
  from Suc.IH[OF small k', of ?ret']
  have ih: "varint32_of (leb128 m (drop_bit 7 x) @ rest) ?ret' (Suc k) =
      Some (?ret' OR push_bit (7 * Suc k) (drop_bit 7 x), Suc k + Suc m)" .
  have sp: "?ret' OR push_bit (7 * Suc k) (drop_bit 7 x) = ret OR push_bit (7 * k) x"
  proof -
    have "7 * Suc k = 7 + 7 * k" by simp
    then show ?thesis using split7[of ret "7 * k" x] by (simp only:)
  qed
  have cs: "(ucast (x OR 128) :: byte) AND 128 \<noteq> 0" by (rule cont_set) simp
  show ?case
    using Suc.prems(2) cs ih sp by (simp add: low7_or Let_def kMaxVarintLength32_def)
qed

lemma writeVarint32_buf_leb128:
  "writeVarint32_buf v =
     (if v < 2 ^ 7 then leb128 0 v
      else if v < 2 ^ 14 then leb128 1 v
      else if v < 2 ^ 21 then leb128 2 v
      else if v < 2 ^ 28 then leb128 2 (drop_bit 7 v)
      else leb128 4 v)"
  by (simp add: writeVarint32_buf_def numeral_eq_Suc drop_bit_drop_bit del: drop_bit_Suc)

lemma writeVarint32_buf_cases:
  "unat v < 2 ^ 7 \<Longrightarrow> writeVarint32_buf v = leb128 0 v"
  "2 ^ 7 \<le> unat v \<Longrightarrow> unat v < 2 ^ 14 \<Longrightarrow> writeVarint32_buf v = leb128 1 v"
  "2 ^ 14 \<le> unat v \<Longrightarrow> unat v < 2 ^ 21 \<Longrightarrow> writeVarint32_buf v = leb128 2 v"
  "2 ^ 21 \<le> unat v \<Longrightarrow> unat v < 2 ^ 28 \<Longrightarrow> writeVarint32_buf v = leb128 2 (drop_bit 7 v)"
  "2 ^ 28 \<le> unat v \<Longrightarrow> writeVarint32_buf v = leb128 4 v"
  unfolding writeVarint32_buf_leb128 by (simp_all add: word_less_nat_alt)

lemma varint32_of_writeVarint32_buf:
  assumes "v < 2 ^ 21 \<or> 2 ^ 28 \<le> v"
  shows "varint32_of (writeVarint32_buf v @ rest) 0 0 = Some (v, length (writeVarint32_buf v))"
proof -
  have a: "unat v < 2 ^ 21 \<or> 2 ^ 28 \<le> unat v"
    using assms by (simp add: word_less_nat_alt word_le_nat_alt)
  consider "unat v < 2 ^ 7" | "2 ^ 7 \<le> unat v" "unat v < 2 ^ 14"
    | "2 ^ 14 \<le> unat v" "unat v < 2 ^ 21" | "2 ^ 28 \<le> unat v"
    using a by linarith
  then show ?thesis
  proof cases
    case 1
    then have "unat v < 2 ^ (7 * Suc 0)" by simp
    from varint32_of_leb128[OF this, of 0 rest 0] show ?thesis
      by (simp add: writeVarint32_buf_cases(1)[OF 1])
  next
    case 2
    then have "unat v < 2 ^ (7 * Suc 1)" by simp
    from varint32_of_leb128[OF this, of 0 rest 0] show ?thesis
      by (simp add: writeVarint32_buf_cases(2)[OF 2] length_leb128)
  next
    case 3
    then have "unat v < 2 ^ (7 * Suc 2)" by simp
    from varint32_of_leb128[OF this, of 0 rest 0] show ?thesis
      by (simp add: writeVarint32_buf_cases(3)[OF 3] length_leb128)
  next
    case 4
    have "unat v < 2 ^ 32" using unsigned_less[of v] by simp
    then have "unat v < 2 ^ (7 * Suc 4)" by simp
    from varint32_of_leb128[OF this, of 0 rest 0] show ?thesis
      by (simp add: writeVarint32_buf_cases(5)[OF 4] length_leb128)
  qed
qed

lemma length_writeVarint32_buf: "length (writeVarint32_buf v) \<le> 5"
  by (simp add: writeVarint32_buf_def)

lemma varint32_of_writeVarint32_buf_lost:
  assumes "2 ^ 21 \<le> v" "v < 2 ^ 28"
  shows "varint32_of (writeVarint32_buf v @ rest) 0 0 = Some (drop_bit 7 v, 3)"
    and "drop_bit 7 v \<noteq> v" and "length (writeVarint32_buf v) = 3"
proof -
  have u: "2 ^ 21 \<le> unat v" "unat v < 2 ^ 28"
    using assms by (simp_all add: word_less_nat_alt word_le_nat_alt)
  note eq = writeVarint32_buf_cases(4)[OF u]
  have d: "unat (drop_bit 7 v) = unat v div 2 ^ 7" by (simp add: drop_bit_eq_div unat_div)
  have "unat v div 2 ^ 7 < 2 ^ 21" using u(2) by simp
  then have "unat (drop_bit 7 v) < 2 ^ (7 * Suc 2)" using d by simp
  from varint32_of_leb128[OF this, of 0 rest 0]
  show "varint32_of (writeVarint32_buf v @ rest) 0 0 = Some (drop_bit 7 v, 3)"
    by (simp add: eq)
  have "unat v div 2 ^ 7 < unat v" using u(1) by simp
  then show "drop_bit 7 v \<noteq> v" using d by auto
  show "length (writeVarint32_buf v) = 3" by (simp add: eq length_leb128)
qed

lemma write_all_then_open:
  assumes "map_of (files d) fname = None" and "concat chunks \<noteq> []"
  shows "\<exists>d1 w0 w d2 d3 r f.
     createOutput d fname = (d1, Inr w0) \<and> write_all w0 chunks = Inr w \<and>
     closeOutput d1 w = (d2, Inr ()) \<and> openInput d2 fname = (d3, Inr r) \<and>
     lookup_store d3 (rfile r) = Some f \<and> file_holds f (concat chunks) \<and> reading f r 0"
proof -
  let ?d1 = "d\<lparr>files := AList.update fname DummyFile (files d)\<rparr>"
  let ?w0 = "new_RAMFileIndexOutput fname"
  have co: "createOutput d fname = (?d1, Inr ?w0)" by (rule createOutput_absent[OF assms(1)])
  from write_all_writing[OF writing_new, of fname chunks] obtain w where
    w: "write_all ?w0 chunks = Inr w" "writing w ([] @ concat chunks)" "file_name (wfile w) = fname"
    unfolding new_writer_name by blast
  have wd: "writing w (concat chunks)" using w(2) by simp
  have t: "map_of (files ?d1) fname = Some DummyFile" by (simp add: map_of_update)
  from commit_and_open[OF t wd w(3) assms(2)] obtain d2 d3 r f where
    o: "closeOutput ?d1 w = (d2, Inr ())" "openInput d2 fname = (d3, Inr r)"
      "lookup_store d3 (rfile r) = Some f" "file_holds f (concat chunks)" "reading f r 0"
    by blast
  show ?thesis using co w(1) o by blast
qed

lemma write_then_open:
  assumes "map_of (files d) fname = None" and "bs \<noteq> []"
  shows "\<exists>d1 w0 w d2 d3 r f.
     createOutput d fname = (d1, Inr w0) \<and> write_bytes w0 bs = Inr w \<and>
     closeOutput d1 w = (d2, Inr ()) \<and> openInput d2 fname = (d3, Inr r) \<and>
     lookup_store d3 (rfile r) = Some f \<and> file_holds f bs \<and> reading f r 0"
proof -
  have ne: "concat [bs] \<noteq> []" using assms(2) by simp
  from write_all_then_open[OF assms(1) ne] obtain d1 w0 w d2 d3 r f where
    o: "createOutput d fname = (d1, Inr w0)" "write_all w0 [bs] = Inr w"
      "closeOutput d1 w = (d2, Inr ())" "openInput d2 fname = (d3, Inr r)"
      "lookup_store d3 (rfile r) = Some f" "file_holds f (concat [bs])" "reading f r 0"
    by blast
  have "write_bytes w0 bs = Inr w" using o(2) by (simp split: sum.splits)
  moreover have "file_holds f bs" using o(6) by simp
  ultimately show ?thesis using o(1,3,4,5,7) by blast
qed

section \<open>Round trips through a file\<close>

text \<open>
  A value is written to a new file, the file is closed and opened, and the value is
  read back. The fixed codecs and the 64-bit varint return every value; the 32-bit
  varint returns the values below \<open>2^21\<close> and from \<open>2^28\<close> on, in at most 5 bytes, and
  returns \<open>v >> 7\<close> for the values \<open>v\<close> between.
\<close>

lemma writeInt32_readInt32:
  assumes "map_of (files d) fname = None"
  shows "\<exists>d1 w0 w d2 d3 r f r'.
     createOutput d fname = (d1, Inr w0) \<and> writeInt32 w0 v = Inr w \<and>
     closeOutput d1 w = (d2, Inr ()) \<and> openInput d2 fname = (d3, Inr r) \<and>
     lookup_store d3 (rfile r) = Some f \<and> file_length f = 4 \<and>
     readInt32 f r = Inr (v, r')"
proof -
  have ne: "writeInt32_buf v \<noteq> []" and len: "length (writeInt32_buf v) = 4"
    by (simp_all add: writeInt32_buf_def)
  from write_then_open[OF assms ne] obtain d1 w0 w d2 d3 r f where
    o: "createOutput d fname = (d1, Inr w0)" "write_bytes w0 (writeInt32_buf v) = Inr w"
      "closeOutput d1 w = (d2, Inr ())" "openInput d2 fname = (d3, Inr r)"
      "lookup_store d3 (rfile r) = Some f" "file_holds f (writeInt32_buf v)" "reading f r 0"
    by blast
  have l4: "0 + 4 \<le> length (writeInt32_buf v)" using len by simp
  from readInt32_reading[OF o(6,7) l4] obtain r' where
    "readInt32 f r = Inr (readInt32_value (take 4 (drop 0 (writeInt32_buf v))), r')" by blast
  then have rd: "readInt32 f r = Inr (v, r')"
    using len by (simp add: readInt32_value_writeInt32_buf)
  have fl: "file_length f = 4" using o(6) len by (simp add: file_holds_def)
  have wr: "writeInt32 w0 v = Inr w" using o(2) by (simp add: writeInt32_def)
  show ?thesis using o(1,3,4,5) wr fl rd by blast
qed

lemma writeInt64_readInt64:
  assumes "map_of (files d) fname = None"
  shows "\<exists>d1 w0 w d2 d3 r f r'.
     createOutput d fname = (d1, Inr w0) \<and> writeInt64 w0 v = Inr w \<and>
     closeOutput d1 w = (d2, Inr ()) \<and> openInput d2 fname = (d3, Inr r) \<and>
     lookup_store d3 (rfile r) = Some f \<and> file_length f = 8 \<and>
     readInt64 f r = Inr (v, r')"
proof -
  have ne: "writeInt64_buf v \<noteq> []" and len: "length (writeInt64_buf v) = 8"
    by (simp_all add: writeInt64_buf_def)
  from write_then_open[OF assms ne] obtain d1 w0 w d2 d3 r f where
    o: "createOutput d fname = (d1, Inr w0)" "write_bytes w0 (writeInt64_buf v) = Inr w"
      "closeOutput d1 w = (d2, Inr ())" "openInput d2 fname = (d3, Inr r)"
      "lookup_store d3 (rfile r) = Some f" "file_holds f (writeInt64_buf v)" "reading f r 0"
    by blast
  have l8: "0 + 8 \<le> length (writeInt64_buf v)" using len by simp
  from readInt64_reading[OF o(6,7) l8] obtain r' where
    "readInt64 f r = Inr (readInt64_value (take 8 (drop 0 (writeInt64_buf v))), r')" by blast
  then have rd: "readInt64 f r = Inr (v, r')"
    using len by (simp add: readInt64_value_writeInt64_buf)
  have fl: "file_length f = 8" using o(6) len by (simp add: file_holds_def)
  have wr: "writeInt64 w0 v = Inr w" using o(2) by (simp add: writeInt64_def)
  show ?thesis using o(1,3,4,5) wr fl rd by blast
qed

lemma writeVarint64_buf_nonempty: "writeVarint64_buf v \<noteq> []"
  by (subst writeVarint64_buf.simps) simp

lemma writeVarint32_buf_nonempty: "writeVarint32_buf v \<noteq> []"
  by (simp add: writeVarint32_buf_def)

lemma writeVarint64_readVarint64:
  assumes "map_of (files d) fname = None"
  shows "\<exists>d1 w0 w d2 d3 r f r'.
     createOutput d fname = (d1, Inr w0) \<and> writeVarint64 w0 v = Inr w \<and>
     closeOutput d1 w = (d2, Inr ()) \<and> openInput d2 fname = (d3, Inr r) \<and>
     lookup_store d3 (rfile r) = Some f \<and> file_length f = length (writeVarint64_buf v) \<and>
     file_length f \<le> 10 \<and> readVarint64 f r = Inr (v, r')"
proof -
  from write_then_open[OF assms writeVarint64_buf_nonempty] obtain d1 w0 w d2 d3 r f where
    o: "createOutput d fname = (d1, Inr w0)" "write_bytes w0 (writeVarint64_buf v) = Inr w"
      "closeOutput d1 w = (d2, Inr ())" "openInput d2 fname = (d3, Inr r)"
      "lookup_store d3 (rfile r) = Some f" "file_holds f (writeVarint64_buf v)" "reading f r 0"
    by blast
  have dec: "varint64_of (drop 0 (writeVarint64_buf v)) 0 0 = Some (v, length (writeVarint64_buf v))"
    using varint64_of_writeVarint64_buf[of v "[]"] by simp
  have z: "0 \<le> length (writeVarint64_buf v)" by simp
  from readVarint64_reading[OF o(6,7) z dec] obtain r' where
    rd: "readVarint64 f r = Inr (v, r')" by blast
  have fl: "file_length f = length (writeVarint64_buf v)" using o(6) by (simp add: file_holds_def)
  have wr: "writeVarint64 w0 v = Inr w" using o(2) by (simp add: writeVarint64_def)
  show ?thesis using o(1,3,4,5) wr fl rd length_writeVarint64_buf[of v] by auto
qed

lemma writeVarint32_readVarint32:
  assumes "map_of (files d) fname = None" and "v < 2 ^ 21 \<or> 2 ^ 28 \<le> v"
  shows "\<exists>d1 w0 w d2 d3 r f r'.
     createOutput d fname = (d1, Inr w0) \<and> writeVarint32 w0 v = Inr w \<and>
     closeOutput d1 w = (d2, Inr ()) \<and> openInput d2 fname = (d3, Inr r) \<and>
     lookup_store d3 (rfile r) = Some f \<and> file_length f = length (writeVarint32_buf v) \<and>
     file_length f \<le> 5 \<and> readVarint32 f r = Inr (v, r')"
proof -
  from write_then_open[OF assms(1) writeVarint32_buf_nonempty] obtain d1 w0 w d2 d3 r f where
    o: "createOutput d fname = (d1, Inr w0)" "write_bytes w0 (writeVarint32_buf v) = Inr w"
      "closeOutput d1 w = (d2, Inr ())" "openInput d2 fname = (d3, Inr r)"
      "lookup_store d3 (rfile r) = Some f" "file_holds f (writeVarint32_buf v)" "reading f r 0"
    by blast
  have dec: "varint32_of (drop 0 (writeVarint32_buf v)) 0 0 = Some (v, length (writeVarint32_buf v))"
    using varint32_of_writeVarint32_buf[OF assms(2), of "[]"] by simp
  have z: "0 \<le> length (writeVarint32_buf v)" by simp
  from readVarint32_reading[OF o(6,7) z dec] obtain r' where
    rd: "readVarint32 f r = Inr (v, r')" by blast
  have fl: "file_length f = length (writeVarint32_buf v)" using o(6) by (simp add: file_holds_def)
  have wr: "writeVarint32 w0 v = Inr w" using o(2) by (simp add: writeVarint32_def)
  show ?thesis using o(1,3,4,5) wr fl rd length_writeVarint32_buf[of v] by auto
qed

lemma writeVarint32_readVarint32_lost:
  assumes "map_of (files d) fname = None" and "2 ^ 21 \<le> v" "v < 2 ^ 28"
  shows "\<exists>d1 w0 w d2 d3 r f r'.
     createOutput d fname = (d1, Inr w0) \<and> writeVarint32 w0 v = Inr w \<and>
     closeOutput d1 w = (d2, Inr ()) \<and> openInput d2 fname = (d3, Inr r) \<and>
     lookup_store d3 (rfile r) = Some f \<and> file_length f = 3 \<and>
     readVarint32 f r = Inr (drop_bit 7 v, r') \<and> drop_bit 7 v \<noteq> v"
proof -
  from write_then_open[OF assms(1) writeVarint32_buf_nonempty] obtain d1 w0 w d2 d3 r f where
    o: "createOutput d fname = (d1, Inr w0)" "write_bytes w0 (writeVarint32_buf v) = Inr w"
      "closeOutput d1 w = (d2, Inr ())" "openInput d2 fname = (d3, Inr r)"
      "lookup_store d3 (rfile r) = Some f" "file_holds f (writeVarint32_buf v)" "reading f r 0"
    by blast
  note lost = varint32_of_writeVarint32_buf_lost[OF assms(2,3)]
  have dec: "varint32_of (drop 0 (writeVarint32_buf v)) 0 0 = Some (drop_bit 7 v, 3)"
    using lost(1)[of "[]"] by simp
  have z: "0 \<le> length (writeVarint32_buf v)" by simp
  from readVarint32_reading[OF o(6,7) z dec] obtain r' where
    rd: "readVarint32 f r = Inr (drop_bit 7 v, r')" by blast
  have fl: "file_length f = 3" using o(6) lost(3) by (simp add: file_holds_def)
  have wr: "writeVarint32 w0 v = Inr w" using o(2) by (simp add: writeVarint32_def)
  show ?thesis using o(1,3,4,5) wr fl rd lost(2) by blast
qed

section \<open>The scenarios step by step\<close>

text \<open>
  Each lemma follows one scenario call by call and names the state after every call.
\<close>

lemmas scenario_defs = written_and_opened_def in_dir_def and_then_def with_file_def

lemma writeVarint32_2097152_steps:
  "writeVarint32_buf 2097152 = [128, 128, 1] \<and>
   (\<exists>d1 w0 w d2 d3 input f r'.
     createOutput new_RAMDirectory ''f'' = (d1, Inr w0) \<and>
     writeVarint32 w0 2097152 = Inr w \<and>
     closeOutput d1 w = (d2, Inr ()) \<and>
     openInput d2 ''f'' = (d3, Inr input) \<and>
     lookup_store d3 (rfile input) = Some f \<and> file_length f = 3 \<and>
     readVarint32 f input = Inr (16384, r'))"
proof -
  let ?d1 = "new_RAMDirectory\<lparr>files := [(''f'', DummyFile)]\<rparr>"
  let ?w0 = "new_RAMFileIndexOutput ''f''"
  have b: "writeVarint32_buf 2097152 = [128, 128, 1]" by (simp add: writeVarint32_buf_def)
  from writeVarint32_writing[OF writing_new, of "''f''" 2097152] obtain w where
    w: "writeVarint32 ?w0 2097152 = Inr w" "writing w ([] @ [128, 128, 1])" "file_name (wfile w) = ''f''"
    unfolding new_writer_name b by blast
  have w2: "writing w [128, 128, 1]" using w(2) by simp
  have t: "map_of (files ?d1) ''f'' = Some DummyFile" by simp
  have ne: "[128, 128, 1 :: byte] \<noteq> []" by simp
  from commit_and_open[OF t w2 w(3) ne] obtain d2 d3 input f where
    o: "closeOutput ?d1 w = (d2, Inr ())" "openInput d2 ''f'' = (d3, Inr input)"
      "lookup_store d3 (rfile input) = Some f" "file_holds f [128, 128, 1]" "reading f input 0"
    by blast
  have fl: "file_length f = 3" using o(4) by (simp add: file_holds_def)
  have v: "varint32_of (drop 0 [128, 128, 1]) 0 0 = Some (16384, 3)"
    by (simp add: kMaxVarintLength32_def)
  have z: "0 \<le> length [128, 128, 1 :: byte]" by simp
  from readVarint32_reading[OF o(4,5) z v] obtain r' where
    r': "readVarint32 f input = Inr (16384, r')" by blast
  show ?thesis
    using b createOutput_new[of "''f''"] w(1) o(1,2,3) fl r' by blast
qed

lemma example_steps:
  "\<exists>d1 w0 w1 w2 w3 d2 d3 input f r1 r2 r3.
     createOutput new_RAMDirectory ''f'' = (d1, Inr w0) \<and>
     writeInt64 w0 0xFFFFFFFFFFFFFFFF = Inr w1 \<and>
     writeString w1 hello = Inr w2 \<and>
     writeVarint32 w2 300 = Inr w3 \<and>
     closeOutput d1 w3 = (d2, Inr ()) \<and>
     openInput d2 ''f'' = (d3, Inr input) \<and>
     lookup_store d3 (rfile input) = Some f \<and> file_length f = 16 \<and>
     readInt64 f input = Inr (0xFFFFFFFFFFFFFFFF, r1) \<and>
     readString f r1 = Inr (hello, r2) \<and>
     readVarint32 f r2 = Inr (300, r3) \<and>
     eof f r3 = Inr (False, r3)"
proof -
  from example_written obtain w1 w2 w3 where
    w: "writeInt64 (new_RAMFileIndexOutput ''f'') 0xFFFFFFFFFFFFFFFF = Inr w1"
      "writeString w1 hello = Inr w2" "writeVarint32 w2 300 = Inr w3"
      "writing w3 example_data" "file_name (wfile w3) = ''f''"
    by blast
  from example_opened[OF w(4,5)] obtain d2 d3 input f where
    o: "closeOutput (new_RAMDirectory\<lparr>files := [(''f'', DummyFile)]\<rparr>) w3 = (d2, Inr ())"
      "openInput d2 ''f'' = (d3, Inr input)" "lookup_store d3 (rfile input) = Some f"
      "file_holds f example_data" "reading f input 0"
    by blast
  from o(4) have fl: "file_length f = 16" by (simp add: file_holds_def example_length)
  from example_read[OF o(4,5)] obtain r1 r2 r3 where
    r: "readInt64 f input = Inr (0xFFFFFFFFFFFFFFFF, r1)" "readString f r1 = Inr (hello, r2)"
      "readVarint32 f r2 = Inr (300, r3)" "eof f r3 = Inr (False, r3)"
    by blast
  show ?thesis
    using createOutput_new[of "''f''"] w(1,2,3) o(1,2,3) fl r by blast
qed

lemma seek_then_read_steps:
  assumes "map_of (files d) fname = None" and "p < length (concat chunks)"
  shows "\<exists>d1 w0 w d2 d3 r f r1 r2.
     createOutput d fname = (d1, Inr w0) \<and> write_all w0 chunks = Inr w \<and>
     closeOutput d1 w = (d2, Inr ()) \<and> openInput d2 fname = (d3, Inr r) \<and>
     lookup_store d3 (rfile r) = Some f \<and> file_length f = length (concat chunks) \<and>
     seek f r p = Inr r1 \<and>
     read f r1 (length (concat chunks) - p) = Inr (drop p (concat chunks), r2)"
proof -
  let ?data = "concat chunks"
  have ne: "?data \<noteq> []"
  proof
    assume "?data = []"
    then have "length ?data = 0" by (simp only: list.size)
    with assms(2) show False by simp
  qed
  from write_all_then_open[OF assms(1) ne] obtain d1 w0 w d2 d3 r f where
    o: "createOutput d fname = (d1, Inr w0)" "write_all w0 chunks = Inr w"
      "closeOutput d1 w = (d2, Inr ())" "openInput d2 fname = (d3, Inr r)"
      "lookup_store d3 (rfile r) = Some f" "file_holds f ?data" "reading f r 0"
    by blast
  from o(7) have lb: "last_block r = (file_length f - 1) div kBlockSize + 1"
    by (simp add: reading_def)
  from seek_reading[OF o(6) lb assms(2)] obtain r1 where
    s: "seek f r p = Inr r1" "reading f r1 p" by blast
  have le: "p + (length ?data - p) \<le> length ?data" using assms(2) by simp
  from read_reading[OF o(6) s(2) le] obtain r2 where
    rd: "read f r1 (length ?data - p) = Inr (take (length ?data - p) (drop p ?data), r2)" by blast
  have rd': "read f r1 (length ?data - p) = Inr (drop p ?data, r2)" using rd by simp
  from o(6) have len: "file_length f = length ?data" by (simp add: file_holds_def)
  show ?thesis using o(1-5) len s(1) rd' by blast
qed

lemma seek_to_end_steps:
  "\<exists>d1 w0 w d2 d3 r f.
     createOutput new_RAMDirectory ''f'' = (d1, Inr w0) \<and>
     write_all w0 [[1, 2, 3]] = Inr w \<and>
     closeOutput d1 w = (d2, Inr ()) \<and>
     openInput d2 ''f'' = (d3, Inr r) \<and>
     lookup_store d3 (rfile r) = Some f \<and> file_length f = 3 \<and>
     seek f r 3 = Inl AssertFail"
proof -
  have a: "map_of (files new_RAMDirectory) ''f'' = None" by (simp add: new_RAMDirectory_def)
  have b: "concat [[1, 2, 3 :: byte]] \<noteq> []" by simp
  from write_all_then_open[OF a b] obtain d1 w0 w d2 d3 r f where
    s: "createOutput new_RAMDirectory ''f'' = (d1, Inr w0)" "write_all w0 [[1, 2, 3]] = Inr w"
      "closeOutput d1 w = (d2, Inr ())" "openInput d2 ''f'' = (d3, Inr r)"
      "lookup_store d3 (rfile r) = Some f" "file_holds f (concat [[1, 2, 3 :: byte]])"
    by blast
  have fl: "file_length f = 3" using s(6) by (simp add: file_holds_def)
  then have "seek f r 3 = Inl AssertFail" by (simp add: seek_def)
  with s(1-5) fl show ?thesis by blast
qed

lemma deleteSegment_committed_steps:
  "\<exists>d1 w0 w d2.
     createOutput new_RAMDirectory ''seg1_a'' = (d1, Inr w0) \<and>
     write_bytes w0 [1] = Inr w \<and>
     closeOutput d1 w = (d2, Inr ()) \<and>
     fileLength d2 ''seg1_a'' = (d2, Inr 1) \<and>
     deleteSegment d2 ''seg1_'' = (d2, Inl AssertFail) \<and>
     files d2 = [(''seg1_a'', FilePtr 0)] \<and>
     fileExists d2 ''seg1_a''"
proof -
  let ?d1 = "new_RAMDirectory\<lparr>files := [(''seg1_a'', DummyFile)]\<rparr>"
  let ?w0 = "new_RAMFileIndexOutput ''seg1_a''"
  from write_bytes_writing[OF writing_new, of "''seg1_a''" "[1]"] obtain w where
    w: "write_bytes ?w0 [1] = Inr w" "writing w ([] @ [1])" "file_name (wfile w) = ''seg1_a''"
    unfolding new_writer_name by blast
  have t: "map_of (files ?d1) ''seg1_a'' = Some DummyFile" by simp
  from closeOutput_writing[OF t w(2,3)] obtain d2 f where
    c: "closeOutput ?d1 w = (d2, Inr ())"
      "files d2 = AList.update ''seg1_a'' (FilePtr (length (store ?d1))) (files ?d1)"
      "store d2 = store ?d1 @ [Some f]" "file_holds f ([] @ [1])"
    by blast
  have fs: "files d2 = [(''seg1_a'', FilePtr 0)]"
    using c(2) by (simp add: new_RAMDirectory_def)
  have st: "store d2 = [Some f]" using c(3) by (simp add: new_RAMDirectory_def)
  have fl: "file_length f = 1" using c(4) by (simp add: file_holds_def)
  have l: "fileLength d2 ''seg1_a'' = (d2, Inr 1)"
    using fs st fl by (simp add: fileLength_def deref_def lookup_store_def)
  have ds: "deleteSegment d2 ''seg1_'' = (d2, Inl AssertFail)"
    using fs by (simp add: deleteSegment_def)
  have ex: "fileExists d2 ''seg1_a''" using fs by (simp add: fileExists_def)
  show ?thesis using createOutput_new[of "''seg1_a''"] w(1) c(1) l ds fs ex by blast
qed

section \<open>Round trips as scenarios\<close>

lemma new_RAMDirectory_absent: "map_of (files new_RAMDirectory) fname = None"
  by (simp add: new_RAMDirectory_def)

lemma roundtrip_Int32: "roundtrip (\<lambda>output. writeInt32 output v) readInt32 = Inr v"
proof -
  from writeInt32_readInt32[OF new_RAMDirectory_absent, of "''f''" v]
  obtain d1 w0 w d2 d3 r f r' where
    "createOutput new_RAMDirectory ''f'' = (d1, Inr w0)" "writeInt32 w0 v = Inr w"
    "closeOutput d1 w = (d2, Inr ())" "openInput d2 ''f'' = (d3, Inr r)"
    "lookup_store d3 (rfile r) = Some f" "readInt32 f r = Inr (v, r')"
    by blast
  then show ?thesis by (simp add: roundtrip_def scenario_defs)
qed

lemma roundtrip_Int64: "roundtrip (\<lambda>output. writeInt64 output v) readInt64 = Inr v"
proof -
  from writeInt64_readInt64[OF new_RAMDirectory_absent, of "''f''" v]
  obtain d1 w0 w d2 d3 r f r' where
    "createOutput new_RAMDirectory ''f'' = (d1, Inr w0)" "writeInt64 w0 v = Inr w"
    "closeOutput d1 w = (d2, Inr ())" "openInput d2 ''f'' = (d3, Inr r)"
    "lookup_store d3 (rfile r) = Some f" "readInt64 f r = Inr (v, r')"
    by blast
  then show ?thesis by (simp add: roundtrip_def scenario_defs)
qed

lemma roundtrip_Varint64: "roundtrip (\<lambda>output. writeVarint64 output v) readVarint64 = Inr v"
proof -
  from writeVarint64_readVarint64[OF new_RAMDirectory_absent, of "''f''" v]
  obtain d1 w0 w d2 d3 r f r' where
    "createOutput new_RAMDirectory ''f'' = (d1, Inr w0)" "writeVarint64 w0 v = Inr w"
    "closeOutput d1 w = (d2, Inr ())" "openInput d2 ''f'' = (d3, Inr r)"
    "lookup_store d3 (rfile r) = Some f" "readVarint64 f r = Inr (v, r')"
    by blast
  then show ?thesis by (simp add: roundtrip_def scenario_defs)
qed

lemma roundtrip_Varint32:
  assumes "v < 2 ^ 21 \<or> 2 ^ 28 \<le> v"
  shows "roundtrip (\<lambda>output. writeVarint32 output v) readVarint32 = Inr v"
proof -
  from writeVarint32_readVarint32[OF new_RAMDirectory_absent assms, of "''f''"]
  obtain d1 w0 w d2 d3 r f r' where
    "createOutput new_RAMDirectory ''f'' = (d1, Inr w0)" "writeVarint32 w0 v = Inr w"
    "closeOutput d1 w = (d2, Inr ())" "openInput d2 ''f'' = (d3, Inr r)"
    "lookup_store d3 (rfile r) = Some f" "readVarint32 f r = Inr (v, r')"
    by blast
  then show ?thesis by (simp add: roundtrip_def scenario_defs)
qed

lemma roundtrip_Varint32_lost:
  assumes "2 ^ 21 \<le> v" "v < 2 ^ 28"
  shows "roundtrip (\<lambda>output. writeVarint32 output v) readVarint32 = Inr (drop_bit 7 v)"
    and "drop_bit 7 v \<noteq> v"
proof -
  from writeVarint32_readVarint32_lost[OF new_RAMDirectory_absent assms, of "''f''"]
  obtain d1 w0 w d2 d3 r f r' where
    *: "createOutput new_RAMDirectory ''f'' = (d1, Inr w0)" "writeVarint32 w0 v = Inr w"
    "closeOutput d1 w = (d2, Inr ())" "openInput d2 ''f'' = (d3, Inr r)"
    "lookup_store d3 (rfile r) = Some f" "readVarint32 f r = Inr (drop_bit 7 v, r')"
    "drop_bit 7 v \<noteq> v"
    by blast
  from *(1-6) show "roundtrip (\<lambda>output. writeVarint32 output v) readVarint32 = Inr (drop_bit 7 v)"
    by (simp add: roundtrip_def scenario_defs)
  from *(7) show "drop_bit 7 v \<noteq> v" .
qed

section \<open>The claims\<close>

text \<open>
  C1. The claim holds for the fixed codecs, for \<open>writeVarint64\<close> and for the values of
  \<open>writeVarint32\<close> below \<open>2^21\<close> and from \<open>2^28\<close> on (\<open>roundtrip_Int32\<close>, \<open>roundtrip_Int64\<close>,
  \<open>roundtrip_Varint64\<close>, \<open>roundtrip_Varint32\<close>). The branch of \<open>writeVarint32\<close> for the
  values from \<open>2^21\<close> up to \<open>2^28\<close> stores three bytes and leaves out the first,
  \<open>num | B\<close>. For \<open>2097152 = 2^21\<close> it writes \<open>0x80 0x80 0x01\<close>, three bytes where LEB128
  has four, and \<open>readVarint32\<close> on the committed file returns \<open>16384\<close>.
\<close>

theorem varint32_roundtrip_fails:
  "writeVarint32_buf 2097152 = [128, 128, 1] \<and>
   roundtrip (\<lambda>output. writeVarint32 output 2097152) readVarint32 = Inr 16384"
proof -
  from writeVarint32_2097152_steps obtain d1 w0 w d2 d3 input f r' where
    "writeVarint32_buf 2097152 = [128, 128, 1]"
    "createOutput new_RAMDirectory ''f'' = (d1, Inr w0)" "writeVarint32 w0 2097152 = Inr w"
    "closeOutput d1 w = (d2, Inr ())" "openInput d2 ''f'' = (d3, Inr input)"
    "lookup_store d3 (rfile input) = Some f" "readVarint32 f input = Inr (16384, r')"
    by blast
  then show ?thesis by (simp add: roundtrip_def scenario_defs)
qed

text \<open>
  C2. In the example scenario the three reads return the maximal 64-bit value, \<open>hello\<close>
  and 300, and \<open>eof()\<close> then returns false, not true: the constructor sets
  \<open>last_block\<close> to the index of the last block plus one, so the sentinel stays at the
  end of the block and the 16-byte file still counts \<open>4096 - 16\<close> pending bytes.
\<close>

theorem example_scenario_no_eof:
  "example_scenario = Inr (0xFFFFFFFFFFFFFFFF, hello, 300, False)"
proof -
  from example_steps obtain d1 w0 w1 w2 w3 d2 d3 input f r1 r2 r3 where
    "createOutput new_RAMDirectory ''f'' = (d1, Inr w0)"
    "writeInt64 w0 0xFFFFFFFFFFFFFFFF = Inr w1" "writeString w1 hello = Inr w2"
    "writeVarint32 w2 300 = Inr w3" "closeOutput d1 w3 = (d2, Inr ())"
    "openInput d2 ''f'' = (d3, Inr input)" "lookup_store d3 (rfile input) = Some f"
    "readInt64 f input = Inr (0xFFFFFFFFFFFFFFFF, r1)" "readString f r1 = Inr (hello, r2)"
    "readVarint32 f r2 = Inr (300, r3)" "eof f r3 = Inr (False, r3)"
    by blast
  then show ?thesis by (simp add: example_scenario_def scenario_defs)
qed

text \<open>
  C3, as amended. A file is created under a name the table does not hold, written by
  any sequence of \<open>write\<close> calls with \<open>N\<close> bytes in all, and closed. For every position
  \<open>p < N\<close>, a reader opened on it and moved by \<open>seek(p)\<close> reads, with \<open>read\<close> of \<open>N - p\<close>
  bytes, exactly the bytes written at positions \<open>p\<close> up to \<open>N\<close>.
\<close>

theorem seek_then_read:
  assumes "map_of (files d) fname = None" and "p < length (concat chunks)"
  shows "write_seek_read d fname chunks p (length (concat chunks) - p) =
     Inr (drop p (concat chunks))"
proof -
  from seek_then_read_steps[OF assms] obtain d1 w0 w d2 d3 r f r1 r2 where
    "createOutput d fname = (d1, Inr w0)" "write_all w0 chunks = Inr w"
    "closeOutput d1 w = (d2, Inr ())" "openInput d2 fname = (d3, Inr r)"
    "lookup_store d3 (rfile r) = Some f" "seek f r p = Inr r1"
    "read f r1 (length (concat chunks) - p) = Inr (drop p (concat chunks), r2)"
    by blast
  then show ?thesis by (simp add: write_seek_read_def scenario_defs)
qed

theorem seek_then_read_witness:
  "write_seek_read new_RAMDirectory ''f'' [replicate 4096 1, replicate 904 2] 4500 500 =
     Inr (replicate 500 2)"
proof -
  have a: "map_of (files new_RAMDirectory) ''f'' = None" by (simp add: new_RAMDirectory_def)
  have b: "4500 < length (concat [replicate 4096 (1 :: byte), replicate 904 2])" by simp
  have l: "length (concat [replicate 4096 (1 :: byte), replicate 904 2]) = 5000" by simp
  have d: "drop 4500 (concat [replicate 4096 (1 :: byte), replicate 904 2]) = replicate 500 2"
    by simp
  have m: "(5000 :: nat) - 4500 = 500" by simp
  from seek_then_read[OF a b] show ?thesis unfolding d l m .
qed

text \<open>
  C3 as stated fails at \<open>p = N\<close>: on a file of three bytes \<open>seek(3)\<close> fails the
  reader's assertion \<open>seek_pos < file->length\<close>, before anything is read.
\<close>

theorem seek_to_end_aborts:
  "write_seek_read new_RAMDirectory ''f'' [[1, 2, 3]] 3 0 = Inl AssertFail"
proof -
  from seek_to_end_steps obtain d1 w0 w d2 d3 r f where
    "createOutput new_RAMDirectory ''f'' = (d1, Inr w0)" "write_all w0 [[1, 2, 3]] = Inr w"
    "closeOutput d1 w = (d2, Inr ())" "openInput d2 ''f'' = (d3, Inr r)"
    "lookup_store d3 (rfile r) = Some f" "seek f r 3 = Inl AssertFail"
    by blast
  then show ?thesis by (simp add: write_seek_read_def scenario_defs)
qed

text \<open>
  C4. On a directory whose only entry is the committed one-byte file \<open>seg1_a\<close>,
  \<open>deleteSegment("seg1_")\<close> fails its assertion \<open>pair.second == &dummy_file\<close> and
  removes nothing.
\<close>

theorem deleteSegment_committed_aborts:
  "commit_then_deleteSegment ''seg1_a'' [1] ''seg1_'' = Inr (Inl AssertFail, [''seg1_a''])"
proof -
  from deleteSegment_committed_steps obtain d1 w0 w d2 where
    s: "createOutput new_RAMDirectory ''seg1_a'' = (d1, Inr w0)" "write_bytes w0 [1] = Inr w"
    "closeOutput d1 w = (d2, Inr ())" "deleteSegment d2 ''seg1_'' = (d2, Inl AssertFail)"
    "files d2 = [(''seg1_a'', FilePtr 0)]"
    by blast
  then show ?thesis by (simp add: commit_then_deleteSegment_def scenario_defs listAll_def)
qed

text \<open>
  C5. \<open>createOutput\<close> on a name the table holds, bound to \<open>dummy_file\<close> or to a committed
  file, throws \<open>FileAlreadyExistsException\<close> and leaves the directory as it was. On a
  name the table does not hold it binds the name to \<open>dummy_file\<close>, changes nothing else,
  and returns a writer at position 0 with no buffer, whose file is new: no block,
  length 0.
\<close>

theorem createOutput_exists_or_reserves:
  "(\<forall>p. map_of (files d) fname = Some p \<longrightarrow>
      createOutput d fname = (d, Inl (Thrown FileAlreadyExistsException))) \<and>
   (map_of (files d) fname = None \<longrightarrow>
      (\<exists>d' w. createOutput d fname = (d', Inr w) \<and>
         map_of (files d') = (map_of (files d))(fname \<mapsto> DummyFile) \<and>
         store d' = store d \<and> dummy_refs d' = dummy_refs d \<and>
         wfile w = \<lparr>blocks = [], file_length = 0, refs = 0, file_name = fname\<rparr> \<and>
         pos w = 0 \<and> bufBlock w = None))"
  by (simp add: createOutput_def map_of_update new_RAMFileIndexOutput_def new_RAMFile_def)

theorem createOutput_exists_or_reserves_witness:
  "createOutput example_dir ''lock'' = (example_dir, Inl (Thrown FileAlreadyExistsException)) \<and>
   createOutput example_dir ''g'' = (example_dir, Inl (Thrown FileAlreadyExistsException)) \<and>
   (\<exists>d' w. createOutput example_dir ''f'' = (d', Inr w) \<and>
         map_of (files d') = (map_of (files example_dir))(''f'' \<mapsto> DummyFile) \<and>
         store d' = store example_dir \<and> dummy_refs d' = dummy_refs example_dir \<and>
         wfile w = \<lparr>blocks = [], file_length = 0, refs = 0, file_name = ''f''\<rparr> \<and>
         pos w = 0 \<and> bufBlock w = None)"
proof -
  have a: "map_of (files example_dir) ''lock'' = Some DummyFile"
    and b: "map_of (files example_dir) ''g'' = Some (FilePtr 0)"
    and c: "map_of (files example_dir) ''f'' = None"
    by (simp_all add: example_dir_def)
  from createOutput_exists_or_reserves[of example_dir "''lock''"] a
    createOutput_exists_or_reserves[of example_dir "''g''"] b
    createOutput_exists_or_reserves[of example_dir "''f''"] c
  show ?thesis by blast
qed

text \<open>
  C6. On a name the table does not hold, \<open>openInput\<close>, \<open>fileLength\<close> and \<open>deleteFile\<close>
  each throw \<open>FileNotFoundException\<close> and leave the directory as it was.
\<close>

theorem absent_name_FileNotFound:
  "map_of (files d) fname = None \<Longrightarrow>
     openInput d fname = (d, Inl (Thrown FileNotFoundException)) \<and>
     fileLength d fname = (d, Inl (Thrown FileNotFoundException)) \<and>
     deleteFile d fname = (d, Inl (Thrown FileNotFoundException))"
  by (simp add: openInput_def fileLength_def deleteFile_def)

theorem absent_name_FileNotFound_witness:
  "openInput example_dir ''f'' = (example_dir, Inl (Thrown FileNotFoundException)) \<and>
   fileLength example_dir ''f'' = (example_dir, Inl (Thrown FileNotFoundException)) \<and>
   deleteFile example_dir ''f'' = (example_dir, Inl (Thrown FileNotFoundException))"
proof -
  have "map_of (files example_dir) ''f'' = None" by (simp add: example_dir_def)
  then show ?thesis by (rule absent_name_FileNotFound)
qed

text \<open>
  C7. A committed file \<open>fname\<close> holds \<open>data\<close> and is open in the readers \<open>rs\<close>, at least
  one, so that its count is one more than their number. Then \<open>deleteFile\<close> removes the
  name and leaves the file in the store with its blocks and length, its count now the
  number of readers; a reader \<open>r\<close> of \<open>rs\<close> at position \<open>p\<close> still reads the bytes of \<open>data\<close>
  from \<open>p\<close> to the end; the file stays in the store while fewer than all readers have
  closed, and is deleted when the last one closes. In the other order, closing all
  readers leaves the file in the store with count 1, and \<open>deleteFile\<close> then deletes it.
\<close>

theorem deleteFile_keeps_open_file:
  assumes tbl: "map_of (files d) fname = Some (FilePtr a)"
    and st: "lookup_store d a = Some f"
    and cnt: "refs f = 1 + int (length rs)"
    and rs: "\<forall>r\<in>set rs. rfile r = a"
    and ne: "rs \<noteq> []"
    and h: "file_holds f data"
    and rd: "r \<in> set rs" "reading f r p" "p \<le> length data"
  shows "\<exists>d' f'. deleteFile d fname = (d', Inr ()) \<and> map_of (files d') fname = None \<and>
     lookup_store d' a = Some f' \<and> blocks f' = blocks f \<and> file_length f' = file_length f \<and>
     refs f' = int (length rs) \<and>
     (\<exists>r'. read f' r (length data - p) = Inr (drop p data, r')) \<and>
     (\<forall>k<length rs. \<exists>d'' f''. closeInputs d' (take k rs) = (d'', Inr ()) \<and>
         lookup_store d'' a = Some f'' \<and> blocks f'' = blocks f \<and>
         file_length f'' = file_length f \<and> refs f'' = int (length rs) - int k) \<and>
     (\<exists>d''. closeInputs d' rs = (d'', Inr ()) \<and> lookup_store d'' a = None) \<and>
     (\<exists>d1 f1. closeInputs d rs = (d1, Inr ()) \<and> lookup_store d1 a = Some f1 \<and>
         blocks f1 = blocks f \<and> file_length f1 = file_length f \<and> refs f1 = 1 \<and>
         (\<exists>d2. deleteFile d1 fname = (d2, Inr ()) \<and> map_of (files d2) fname = None \<and>
            lookup_store d2 a = None))"
proof -
  let ?f' = "f\<lparr>refs := refs f - 1\<rparr>"
  let ?d' = "d\<lparr>files := AList.delete fname (files d), store := (store d)[a := Some ?f']\<rparr>"
  note lt = lookup_store_Some_less[OF st]
  have n1: "refs f \<noteq> 1" using cnt ne by simp
  have del: "deleteFile d fname = (?d', Inr ())"
    using deleteFile_counts[OF tbl st] n1 by simp
  have gone: "map_of (files ?d') fname = None" by (simp add: map_of_delete)
  have l': "lookup_store ?d' a = Some ?f'" using lt by (simp add: lookup_store_def)
  have r': "refs ?f' = int (length rs)" using cnt by simp
  have hf': "file_holds ?f' data" using h by simp
  have rf': "reading ?f' r p" using rd(2) by simp
  from read_reading[OF hf' rf', of "length data - p"] rd(3)
  have reads: "\<exists>r'. read ?f' r (length data - p) = Inr (drop p data, r')" by auto
  have some: "\<forall>k<length rs. \<exists>d'' f''. closeInputs ?d' (take k rs) = (d'', Inr ()) \<and>
         lookup_store d'' a = Some f'' \<and> blocks f'' = blocks f \<and>
         file_length f'' = file_length f \<and> refs f'' = int (length rs) - int k"
  proof (intro allI impI)
    fix k assume k: "k < length rs"
    have a: "\<forall>r\<in>set (take k rs). rfile r = a" using rs by (meson in_set_takeD)
    have c: "int (length (take k rs)) < refs ?f'" using k r' by simp
    from closeInputs_counts[OF a l' c] obtain d'' where
      "closeInputs ?d' (take k rs) = (d'', Inr ())"
      "lookup_store d'' a = Some (?f'\<lparr>refs := refs ?f' - int (length (take k rs))\<rparr>)"
      by auto
    then show "\<exists>d'' f''. closeInputs ?d' (take k rs) = (d'', Inr ()) \<and>
         lookup_store d'' a = Some f'' \<and> blocks f'' = blocks f \<and>
         file_length f'' = file_length f \<and> refs f'' = int (length rs) - int k"
      using k r' by (intro exI[of _ d''] exI[of _ "?f'\<lparr>refs := refs ?f' - int (length (take k rs))\<rparr>"]) simp
  qed
  from closeInputs_last[OF rs l' r' ne]
  have all: "\<exists>d''. closeInputs ?d' rs = (d'', Inr ()) \<and> lookup_store d'' a = None" by auto
  have other: "\<exists>d1 f1. closeInputs d rs = (d1, Inr ()) \<and> lookup_store d1 a = Some f1 \<and>
         blocks f1 = blocks f \<and> file_length f1 = file_length f \<and> refs f1 = 1 \<and>
         (\<exists>d2. deleteFile d1 fname = (d2, Inr ()) \<and> map_of (files d2) fname = None \<and>
            lookup_store d2 a = None)"
  proof -
    have c: "int (length rs) < refs f" using cnt by simp
    let ?f1 = "f\<lparr>refs := refs f - int (length rs)\<rparr>"
    from closeInputs_counts[OF rs st c] obtain d1 where
      d1: "closeInputs d rs = (d1, Inr ())" "lookup_store d1 a = Some ?f1" "files d1 = files d"
      by auto
    have one: "refs ?f1 = 1" using cnt by simp
    have t1: "map_of (files d1) fname = Some (FilePtr a)" using tbl d1(3) by simp
    have "deleteFile d1 fname =
      (d1\<lparr>files := AList.delete fname (files d1), store := (store d1)[a := None]\<rparr>, Inr ())"
      using deleteFile_counts[OF t1 d1(2)] one by simp
    moreover have "lookup_store (d1\<lparr>files := AList.delete fname (files d1), store := (store d1)[a := None]\<rparr>) a = None"
      using lookup_store_Some_less[OF d1(2)] by (simp add: lookup_store_def)
    moreover have "map_of (files (d1\<lparr>files := AList.delete fname (files d1), store := (store d1)[a := None]\<rparr>)) fname = None"
      by (simp add: map_of_delete)
    ultimately show ?thesis using d1(1,2) one by (intro exI[of _ d1] exI[of _ ?f1]) simp
  qed
  show ?thesis
    using del gone l' r' reads some all other
    by (intro exI[of _ ?d'] exI[of _ ?f']) simp
qed

theorem deleteFile_keeps_open_file_witness:
  "\<exists>d1 ra d2 rb f.
     openInput example_dir ''g'' = (d1, Inr ra) \<and> openInput d1 ''g'' = (d2, Inr rb) \<and>
     lookup_store d2 0 = Some f \<and> refs f = 3 \<and>
     (\<exists>d' f'. deleteFile d2 ''g'' = (d', Inr ()) \<and> map_of (files d') ''g'' = None \<and>
        lookup_store d' 0 = Some f' \<and> blocks f' = blocks f \<and> file_length f' = file_length f \<and>
        refs f' = 2 \<and>
        (\<exists>r'. read f' ra 1 = Inr ([7], r')) \<and>
        (\<exists>d'' f''. closeInputs d' [ra] = (d'', Inr ()) \<and> lookup_store d'' 0 = Some f'' \<and>
           blocks f'' = blocks f \<and> file_length f'' = file_length f \<and> refs f'' = 1) \<and>
        (\<exists>d''. closeInputs d' [ra, rb] = (d'', Inr ()) \<and> lookup_store d'' 0 = None) \<and>
        (\<exists>d1 f1. closeInputs d2 [ra, rb] = (d1, Inr ()) \<and> lookup_store d1 0 = Some f1 \<and>
           blocks f1 = blocks f \<and> file_length f1 = file_length f \<and> refs f1 = 1 \<and>
           (\<exists>d2. deleteFile d1 ''g'' = (d2, Inr ()) \<and> map_of (files d2) ''g'' = None \<and>
              lookup_store d2 0 = None)))"
proof -
  define g where "g = \<lparr>blocks = [(\<lambda>_. None)(0 \<mapsto> (7 :: byte))], file_length = 1, refs = 1, file_name = ''g''\<rparr>"
  have tg: "map_of (files example_dir) ''g'' = Some (FilePtr 0)" by (simp add: example_dir_def)
  have lg: "lookup_store example_dir 0 = Some g" by (simp add: example_dir_def lookup_store_def g_def)
  have hg: "file_holds g [7]"
    by (simp add: file_holds_def holds_def cell_def g_def kBlockSize_def)
  have ne: "[7 :: byte] \<noteq> []" by simp
  from openInput_holds[OF tg lg hg ne] obtain d1 ra where
    o1: "openInput example_dir ''g'' = (d1, Inr ra)" "rfile ra = 0"
      "lookup_store d1 0 = Some (g\<lparr>refs := refs g + 1\<rparr>)" "reading g ra 0" "files d1 = files example_dir"
    by blast
  have t1: "map_of (files d1) ''g'' = Some (FilePtr 0)" using tg o1(5) by simp
  have h1: "file_holds (g\<lparr>refs := refs g + 1\<rparr>) [7]" using hg by simp
  from openInput_holds[OF t1 o1(3) h1 ne] obtain d2 rb where
    o2: "openInput d1 ''g'' = (d2, Inr rb)" "rfile rb = 0"
      "lookup_store d2 0 = Some (g\<lparr>refs := refs g + 1, refs := refs (g\<lparr>refs := refs g + 1\<rparr>) + 1\<rparr>)"
      "files d2 = files d1"
    by blast
  let ?f = "g\<lparr>refs := 3\<rparr>"
  have l2: "lookup_store d2 0 = Some ?f" using o2(3) by (simp add: g_def)
  have t2: "map_of (files d2) ''g'' = Some (FilePtr 0)" using t1 o2(4) by simp
  have cnt: "refs ?f = 1 + int (length [ra, rb])" by simp
  have rs: "\<forall>r\<in>set [ra, rb]. rfile r = 0" using o1(2) o2(2) by simp
  have ne2: "[ra, rb] \<noteq> []" by simp
  have hf: "file_holds ?f [7]" using hg by simp
  have mem: "ra \<in> set [ra, rb]" by simp
  have rd: "reading ?f ra 0" using o1(4) by simp
  have le: "0 \<le> length [7 :: byte]" by simp
  from deleteFile_keeps_open_file[OF t2 l2 cnt rs ne2 hf mem rd le]
  obtain d' f' where
    c: "deleteFile d2 ''g'' = (d', Inr ())" "map_of (files d') ''g'' = None"
      "lookup_store d' 0 = Some f'" "blocks f' = blocks ?f" "file_length f' = file_length ?f"
      "refs f' = int (length [ra, rb])"
      "\<exists>r'. read f' ra (length [7 :: byte] - 0) = Inr (drop 0 [7], r')"
      "\<forall>k<length [ra, rb]. \<exists>d'' f''. closeInputs d' (take k [ra, rb]) = (d'', Inr ()) \<and>
         lookup_store d'' 0 = Some f'' \<and> blocks f'' = blocks ?f \<and>
         file_length f'' = file_length ?f \<and> refs f'' = int (length [ra, rb]) - int k"
      "\<exists>d''. closeInputs d' [ra, rb] = (d'', Inr ()) \<and> lookup_store d'' 0 = None"
      "\<exists>d1 f1. closeInputs d2 [ra, rb] = (d1, Inr ()) \<and> lookup_store d1 0 = Some f1 \<and>
         blocks f1 = blocks ?f \<and> file_length f1 = file_length ?f \<and> refs f1 = 1 \<and>
         (\<exists>d2. deleteFile d1 ''g'' = (d2, Inr ()) \<and> map_of (files d2) ''g'' = None \<and>
            lookup_store d2 0 = None)"
    by blast
  have k1: "\<exists>d'' f''. closeInputs d' [ra] = (d'', Inr ()) \<and> lookup_store d'' 0 = Some f'' \<and>
           blocks f'' = blocks ?f \<and> file_length f'' = file_length ?f \<and> refs f'' = 1"
    using c(8)[rule_format, of 1] by simp
  have c6: "refs f' = 2" using c(6) by simp
  have c7: "\<exists>r'. read f' ra 1 = Inr ([7], r')" using c(7) by simp
  have r3: "refs ?f = 3" by simp
  have inner: "\<exists>d' f'. deleteFile d2 ''g'' = (d', Inr ()) \<and> map_of (files d') ''g'' = None \<and>
        lookup_store d' 0 = Some f' \<and> blocks f' = blocks ?f \<and> file_length f' = file_length ?f \<and>
        refs f' = 2 \<and>
        (\<exists>r'. read f' ra 1 = Inr ([7], r')) \<and>
        (\<exists>d'' f''. closeInputs d' [ra] = (d'', Inr ()) \<and> lookup_store d'' 0 = Some f'' \<and>
           blocks f'' = blocks ?f \<and> file_length f'' = file_length ?f \<and> refs f'' = 1) \<and>
        (\<exists>d''. closeInputs d' [ra, rb] = (d'', Inr ()) \<and> lookup_store d'' 0 = None) \<and>
        (\<exists>d1 f1. closeInputs d2 [ra, rb] = (d1, Inr ()) \<and> lookup_store d1 0 = Some f1 \<and>
           blocks f1 = blocks ?f \<and> file_length f1 = file_length ?f \<and> refs f1 = 1 \<and>
           (\<exists>d2. deleteFile d1 ''g'' = (d2, Inr ()) \<and> map_of (files d2) ''g'' = None \<and>
              lookup_store d2 0 = None))"
    using c(1,2,3,4,5) c6 c7 k1 c(9,10)
    by (rule_tac x = d' in exI, rule_tac x = f' in exI, intro conjI) assumption+
  show ?thesis
    using o1(1) o2(1) l2 r3 inner
    by (rule_tac x = d1 in exI, rule_tac x = ra in exI, rule_tac x = d2 in exI,
        rule_tac x = rb in exI, rule_tac x = "?f" in exI, intro conjI) assumption+
qed

text \<open>
  C8. \<open>obtainLock\<close> on a name the table holds returns no handle and changes nothing.
  On a name it does not hold it returns a handle and binds the name to \<open>dummy_file\<close>;
  a second \<open>obtainLock\<close> then returns no handle; destroying the first handle removes
  the entry, the table is as before, and \<open>obtainLock\<close> returns a handle again.
\<close>

theorem obtainLock_exclusive:
  "(\<forall>p. map_of (files d) fname = Some p \<longrightarrow> obtainLock d fname = (d, None)) \<and>
   (map_of (files d) fname = None \<longrightarrow>
      (\<exists>d1 h. obtainLock d fname = (d1, Some h) \<and>
         map_of (files d1) fname = Some DummyFile \<and>
         obtainLock d1 fname = (d1, None) \<and>
         (\<exists>d2. closeLock d1 h = (d2, Inr ()) \<and>
            map_of (files d2) = map_of (files d) \<and>
            (\<exists>d3 h'. obtainLock d2 fname = (d3, Some h')))))"
  by (auto simp add: obtainLock_def closeLock_def releaseLock_def map_of_update map_of_delete)

theorem obtainLock_exclusive_witness:
  "obtainLock example_dir ''lock'' = (example_dir, None) \<and>
   obtainLock example_dir ''g'' = (example_dir, None) \<and>
   (\<exists>d1 h. obtainLock example_dir ''f'' = (d1, Some h) \<and>
         map_of (files d1) ''f'' = Some DummyFile \<and>
         obtainLock d1 ''f'' = (d1, None) \<and>
         (\<exists>d2. closeLock d1 h = (d2, Inr ()) \<and>
            map_of (files d2) = map_of (files example_dir) \<and>
            (\<exists>d3 h'. obtainLock d2 ''f'' = (d3, Some h'))))"
proof -
  have a: "map_of (files example_dir) ''lock'' = Some DummyFile"
    and b: "map_of (files example_dir) ''g'' = Some (FilePtr 0)"
    and c: "map_of (files example_dir) ''f'' = None"
    by (simp_all add: example_dir_def)
  from obtainLock_exclusive[of example_dir "''lock''"] a
    obtainLock_exclusive[of example_dir "''g''"] b
    obtainLock_exclusive[of example_dir "''f''"] c
  show ?thesis by blast
qed

text \<open>
  C9. For a name bound to \<open>dummy_file\<close>, \<open>fileLength\<close> does not throw: it returns 0, the
  length of \<open>dummy_file\<close>. A name is so bound right after \<open>createOutput\<close> or
  \<open>obtainLock\<close> reserved it.
\<close>

theorem fileLength_placeholder:
  "(map_of (files d) fname = Some DummyFile \<longrightarrow> fileLength d fname = (d, Inr 0)) \<and>
   (map_of (files d) fname = None \<longrightarrow>
      fileLength (fst (createOutput d fname)) fname = (fst (createOutput d fname), Inr 0) \<and>
      fileLength (fst (obtainLock d fname)) fname = (fst (obtainLock d fname), Inr 0))"
  by (simp add: fileLength_def deref_def dummy_file_def createOutput_def obtainLock_def map_of_update)

theorem fileLength_placeholder_witness:
  "fileLength example_dir ''lock'' = (example_dir, Inr 0) \<and>
   fileLength (fst (createOutput example_dir ''f'')) ''f'' = (fst (createOutput example_dir ''f''), Inr 0) \<and>
   fileLength (fst (obtainLock example_dir ''f'')) ''f'' = (fst (obtainLock example_dir ''f''), Inr 0)"
proof -
  have a: "map_of (files example_dir) ''lock'' = Some DummyFile"
    and c: "map_of (files example_dir) ''f'' = None"
    by (simp_all add: example_dir_def)
  from fileLength_placeholder[of example_dir "''lock''"] a
    fileLength_placeholder[of example_dir "''f''"] c
  show ?thesis by blast
qed

text \<open>
  C10. Creating a file and closing the writer with nothing written commits a file of
  length 0, and \<open>openInput\<close> on it fails the assertion of the reader's constructor.
  Whenever \<open>openInput\<close> returns a reader, the file it is attached to has a length
  greater than 0.
\<close>

theorem empty_file_cannot_be_opened:
  "(map_of (files d) fname = None \<longrightarrow>
      (\<exists>d1 w d2 a f.
         createOutput d fname = (d1, Inr w) \<and>
         closeOutput d1 w = (d2, Inr ()) \<and>
         map_of (files d2) fname = Some (FilePtr a) \<and>
         lookup_store d2 a = Some f \<and> file_length f = 0 \<and>
         openInput d2 fname = (d2, Inl AssertFail))) \<and>
   (\<forall>d' input. openInput d fname = (d', Inr input) \<longrightarrow>
      (\<exists>a f. map_of (files d) fname = Some (FilePtr a) \<and> lookup_store d a = Some f \<and>
         0 < file_length f))"
  apply (rule conjI)
   apply (simp add: createOutput_def closeOutput_def commit_def new_RAMFileIndexOutput_def
      new_RAMFile_def map_of_update openInput_def lookup_store_def new_RAMFileIndexInput_def)
  apply (auto simp add: openInput_def new_RAMFileIndexInput_def split: option.splits file_ptr.splits if_splits)
  done

theorem empty_file_cannot_be_opened_witness:
  "(\<exists>d1 w d2 a f.
         createOutput example_dir ''f'' = (d1, Inr w) \<and>
         closeOutput d1 w = (d2, Inr ()) \<and>
         map_of (files d2) ''f'' = Some (FilePtr a) \<and>
         lookup_store d2 a = Some f \<and> file_length f = 0 \<and>
         openInput d2 ''f'' = (d2, Inl AssertFail)) \<and>
   (\<exists>d' input. openInput example_dir ''g'' = (d', Inr input)) \<and>
   (\<exists>a f. map_of (files example_dir) ''g'' = Some (FilePtr a) \<and> lookup_store example_dir a = Some f \<and>
         0 < file_length f)"
proof -
  have c: "map_of (files example_dir) ''f'' = None"
    by (simp add: example_dir_def)
  have o: "\<exists>d' input. openInput example_dir ''g'' = (d', Inr input)"
    by (simp add: example_dir_def openInput_def lookup_store_def new_RAMFileIndexInput_def)
  from empty_file_cannot_be_opened[of example_dir "''f''"] c
    empty_file_cannot_be_opened[of example_dir "''g''"] o
  show ?thesis by blast
qed

end
